theory Spec2Isabelle
  imports Main
begin

text \<open>
  A model of Lattice.cpp, the parallel engine of a two-dimensional lattice Boltzmann
  solver: the initialisation of the lattice (Init), the extraction of the results
  (GetResults), the partition of the columns among the worker threads and the step loop
  (Simulate), the pass of a worker (CollideAndStream), and the barrier that synchronises
  the controller with the workers (WakeUp, WaitForWork, SignalMoreData, WaitForData).
  Class Cell and the per-cell kernel are declared in files other than Lattice.cpp; what
  Lattice.cpp uses of them is a parameter of the model.
\<close>

section \<open>Machine integers\<close>

text \<open>
  The source narrows unsigned and 64-bit values to \<^verbatim>\<open>int\<close> with
  \<^verbatim>\<open>static_cast<int>(...)\<close>. Values are modelled as mathematical integers and
  the cast is written out as the two's-complement wrap to 32 bits.
\<close>

definition static_cast_int :: "int \<Rightarrow> int" where
  "static_cast_int v = (v + 2147483648) mod 4294967296 - 2147483648"

datatype error = DivisionByZero

section \<open>Matrices\<close>

text \<open>
  An Eigen matrix: \<^verbatim>\<open>rows()\<close>, \<^verbatim>\<open>cols()\<close> and the coefficient
  access \<^verbatim>\<open>m(i, j)\<close>. Every access the modelled code makes is inside the bounds.
\<close>

record 'a matrix =
  rows :: nat
  cols :: nat
  coeff :: "nat \<Rightarrow> nat \<Rightarrow> 'a"

definition Constant :: "nat \<Rightarrow> nat \<Rightarrow> 'a \<Rightarrow> 'a matrix" where
  "Constant r c v = \<lparr>rows = r, cols = c, coeff = (\<lambda>i j. v)\<rparr>"

definition set_coeff :: "'a matrix \<Rightarrow> nat \<Rightarrow> nat \<Rightarrow> 'a \<Rightarrow> 'a matrix" where
  "set_coeff m i j v = m\<lparr>coeff := (coeff m)(i := (coeff m i)(j := v))\<rparr>"

section \<open>Cells and the lattice object\<close>

datatype ResultsType = Density | Speed | Vorticity

datatype BoundaryConditions = BounceBack | Periodic

text \<open>
  Modelled from the spec: class Cell is not declared in Lattice.cpp. A cell holds the 9
  distribution values in its member \<^verbatim>\<open>density\<close>, which Init assigns; the type of
  the values (double in the source) is left as a parameter, so that nothing is assumed of
  its arithmetic.
\<close>

record 'a Cell =
  density :: "'a list"

text \<open>
  The members of Cell that Lattice.cpp calls and whose bodies are in other files, taken
  as parameters: the default constructor, \<^verbatim>\<open>Init()\<close>, \<^verbatim>\<open>Density()\<close>,
  \<^verbatim>\<open>Velocity()\<close>, and \<^verbatim>\<open>sqrt\<close> on the value type.
\<close>

record 'a cell_ops =
  Cell_new :: "'a Cell"
  Cell_Init :: "'a Cell \<Rightarrow> 'a Cell"
  Cell_Density :: "'a Cell \<Rightarrow> 'a"
  Cell_Velocity :: "'a Cell \<Rightarrow> 'a \<times> 'a"
  std_sqrt :: "'a \<Rightarrow> 'a"

text \<open>
  The data members of class Lattice that Init, GetResults and the set-up of Simulate read
  or write. \<^verbatim>\<open>refreshSteps\<close> and \<^verbatim>\<open>numThreads\<close> are unsigned counters.
\<close>

record 'a Lattice =
  resultsType :: ResultsType
  boundaryConditions :: BoundaryConditions
  refreshSteps :: nat
  useAccelX :: bool
  numThreads :: nat
  latticeObstacles :: "bool matrix"
  lattice :: "'a Cell matrix"
  results :: "'a matrix"

definition CellLattice :: "'a cell_ops \<Rightarrow> nat \<Rightarrow> nat \<Rightarrow> 'a Cell matrix" where
  "CellLattice ops r c = Constant r c (Cell_new ops)"

subsection \<open>Lattice::Init\<close>

definition Init_cell ::
  "'a::zero cell_ops \<Rightarrow> bool matrix \<Rightarrow> BoundaryConditions \<Rightarrow> 'a Cell matrix \<Rightarrow> nat \<Rightarrow> nat
    \<Rightarrow> 'a Cell matrix" where
  "Init_cell ops obstacles bc lat j i =
     (if coeff obstacles i j \<or>
         (Periodic \<noteq> bc \<and> (int i = 0 \<or> int i = int (rows lat) - 1))
      then set_coeff lat i j ((coeff lat i j)\<lparr>density := [0, 0, 0, 0, 0, 0, 0, 0, 0]\<rparr>)
      else set_coeff lat i j (Cell_Init ops (coeff lat i j)))"

definition Init_loops ::
  "'a::zero cell_ops \<Rightarrow> bool matrix \<Rightarrow> BoundaryConditions \<Rightarrow> 'a Cell matrix \<Rightarrow> 'a Cell matrix" where
  "Init_loops ops obstacles bc lat =
     foldl (\<lambda>m j. foldl (\<lambda>m' i. Init_cell ops obstacles bc m' j i) m [0..<rows m])
       lat [0..<cols lat]"

definition Init :: "'a::zero cell_ops \<Rightarrow> 'a Lattice \<Rightarrow> 'a Lattice" where
  "Init ops L =
     (let L1 = L\<lparr>results := Constant (rows (latticeObstacles L)) (cols (latticeObstacles L)) 0\<rparr>;
          L2 = L1\<lparr>lattice := CellLattice ops (rows (latticeObstacles L1)) (cols (latticeObstacles L1))\<rparr>
      in L2\<lparr>lattice := Init_loops ops (latticeObstacles L2) (boundaryConditions L2) (lattice L2)\<rparr>)"

subsection \<open>Lattice::GetResults\<close>

definition Density_at :: "'a cell_ops \<Rightarrow> 'a Lattice \<Rightarrow> nat \<Rightarrow> nat \<Rightarrow> 'a" where
  "Density_at ops L i j = Cell_Density ops (coeff (lattice L) i j)"

definition Speed_at :: "'a::{plus,times} cell_ops \<Rightarrow> 'a Lattice \<Rightarrow> nat \<Rightarrow> nat \<Rightarrow> 'a" where
  "Speed_at ops L i j =
     (let res = Cell_Velocity ops (coeff (lattice L) i j)
      in std_sqrt ops (fst res * fst res + snd res * snd res))"

definition Vorticity_at :: "'a::{zero,minus} cell_ops \<Rightarrow> 'a Lattice \<Rightarrow> nat \<Rightarrow> nat \<Rightarrow> 'a" where
  "Vorticity_at ops L i j =
     (let v = Cell_Velocity ops (coeff (lattice L) i j);
          vx = (if int i < int (rows (lattice L)) - 1
                then Cell_Velocity ops (coeff (lattice L) (i + 1) j)
                else Cell_Velocity ops (coeff (lattice L) 0 j));
          vy = (if j > 0 then Cell_Velocity ops (coeff (lattice L) i (j - 1))
                else (if boundaryConditions L = Periodic
                      then Cell_Velocity ops (coeff (lattice L) i (cols (lattice L) - 1))
                      else (0, 0)))
      in (snd vy - snd v) - (fst vx - fst v))"

definition results_loops :: "(nat \<Rightarrow> nat \<Rightarrow> 'a) \<Rightarrow> 'b matrix \<Rightarrow> 'a matrix \<Rightarrow> 'a matrix" where
  "results_loops f lat res =
     foldl (\<lambda>r j. foldl (\<lambda>r' i. set_coeff r' i j (f i j)) r [0..<rows lat]) res [0..<cols lat]"

definition GetResults :: "'a::{zero,plus,minus,times} cell_ops \<Rightarrow> 'a Lattice \<Rightarrow> 'a Lattice" where
  "GetResults ops L =
     (case resultsType L of
        Density \<Rightarrow> L\<lparr>results := results_loops (Density_at ops L) (lattice L) (results L)\<rparr>
      | Speed \<Rightarrow> L\<lparr>results := results_loops (Speed_at ops L) (lattice L) (results L)\<rparr>
      | Vorticity \<Rightarrow> L\<lparr>results := results_loops (Vorticity_at ops L) (lattice L) (results L)\<rparr>)"

section \<open>Lattice::Simulate: set-up and work partitioning\<close>

text \<open>The arguments bound to one worker thread: \<^verbatim>\<open>CollideAndStream(tid, &latticeWork, startCol, endCol)\<close>.\<close>

record thread_args =
  tid :: int
  startCol :: int
  endCol :: int

text \<open>
  The spawning loop \<^verbatim>\<open>for (int t = 0, strideStart = 0; t < (int)numThreads; ++t)\<close>.
  \<open>lcols\<close> is \<^verbatim>\<open>lattice.cols()\<close>. \<^verbatim>\<open>numThreads - 1\<close> is unsigned arithmetic.
\<close>

function spawn_loop :: "nat \<Rightarrow> int \<Rightarrow> int \<Rightarrow> int \<Rightarrow> int \<Rightarrow> thread_args list" where
  "spawn_loop nthreads lcols workStride t strideStart =
     (if t < static_cast_int (int nthreads) then
        (let endStride = strideStart + workStride in
           \<lparr>tid = t, startCol = strideStart,
            endCol = (if t = static_cast_int ((int nthreads - 1) mod 4294967296)
                      then static_cast_int lcols else endStride)\<rparr>
           # spawn_loop nthreads lcols workStride (t + 1) endStride)
      else [])"
  by pat_completeness auto
termination
  by (relation "measure (\<lambda>(n, c, w, t, s). nat (static_cast_int (int n) - t))") auto

declare spawn_loop.simps [simp del]

text \<open>
  The threads Simulate starts for \<open>nthreads\<close> workers on \<open>lcols\<close> columns. The
  stride is \<^verbatim>\<open>static_cast<int>(lattice.cols() / numThreads)\<close>; the division by a
  zero thread count is undefined behaviour in the source and an error value here.
\<close>

definition Simulate_threads :: "nat \<Rightarrow> nat \<Rightarrow> error + thread_args list" where
  "Simulate_threads nthreads lcols =
     (if nthreads = 0 then Inl DivisionByZero
      else Inr (spawn_loop nthreads (int lcols)
                  (static_cast_int (int lcols div int nthreads)) 0 0))"

text \<open>The column range of a worker, as a set.\<close>

definition col_range :: "thread_args \<Rightarrow> int set" where
  "col_range a = {startCol a ..< endCol a}"

text \<open>
  What Simulate has built when the step loop starts: the lattice object after Init, the
  fresh work grid and the spawned threads.
\<close>

record 'a simulation =
  obj :: "'a Lattice"
  latticeWork :: "'a Cell matrix"
  threads :: "thread_args list"

definition Simulate_setup :: "'a::zero cell_ops \<Rightarrow> 'a Lattice \<Rightarrow> error + 'a simulation" where
  "Simulate_setup ops L =
     (let L1 = Init ops L;
          work = CellLattice ops (rows (lattice L1)) (cols (lattice L1))
      in case Simulate_threads (numThreads L1) (cols (lattice L1)) of
           Inl e \<Rightarrow> Inl e
         | Inr ths \<Rightarrow> Inr \<lparr>obj = L1, latticeWork = work, threads = ths\<rparr>)"

section \<open>Lattice::CollideAndStream: the pass of one worker\<close>

text \<open>
  One call \<^verbatim>\<open>CollideAndStreamCell(x, y, collide, xInside, ...)\<close>; the remaining
  arguments are the same in every call of a pass.
\<close>

record kernel_call =
  cell_x :: int
  cell_y :: int
  collideUpDown :: bool
  xInsideBoundaryOrUseAccel :: bool

definition column_calls :: "bool \<Rightarrow> bool \<Rightarrow> int \<Rightarrow> int \<Rightarrow> int \<Rightarrow> kernel_call list" where
  "column_calls ShouldCollideAtUpDownBoundary accel LatticeRowsMinusOne LatticeColsMinusOne x =
     (let xInside = (accel \<or> (x > 0 \<and> x < LatticeColsMinusOne)) in
        [\<lparr>cell_x = x, cell_y = 0, collideUpDown = ShouldCollideAtUpDownBoundary,
          xInsideBoundaryOrUseAccel = xInside\<rparr>]
        @ map (\<lambda>y. \<lparr>cell_x = x, cell_y = y, collideUpDown = True,
                     xInsideBoundaryOrUseAccel = xInside\<rparr>) [1 .. LatticeRowsMinusOne - 1]
        @ [\<lparr>cell_x = x, cell_y = LatticeRowsMinusOne,
            collideUpDown = ShouldCollideAtUpDownBoundary,
            xInsideBoundaryOrUseAccel = xInside\<rparr>])"

text \<open>The kernel calls of one pass over the columns \<open>[startCol, endCol)\<close>, in order.\<close>

definition CollideAndStream_calls :: "'a Lattice \<Rightarrow> int \<Rightarrow> int \<Rightarrow> kernel_call list" where
  "CollideAndStream_calls L start_col end_col =
     (let LatticeRows = static_cast_int (int (rows (lattice L)));
          LatticeRowsMinusOne = LatticeRows - 1;
          LatticeCols = static_cast_int (int (cols (lattice L)));
          LatticeColsMinusOne = LatticeCols - 1;
          ShouldCollideAtUpDownBoundary = (Periodic = boundaryConditions L)
      in concat (map (column_calls ShouldCollideAtUpDownBoundary (useAccelX L)
                        LatticeRowsMinusOne LatticeColsMinusOne) [start_col .. end_col - 1]))"

text \<open>
  One pass: the kernel calls in order on the work grid, then the inlet/outlet handler.
  \<^verbatim>\<open>CollideAndStreamCell\<close> and \<^verbatim>\<open>DealWithInletOutlet\<close> are defined in other
  files and are parameters.
\<close>

definition CollideAndStream_pass ::
  "(kernel_call \<Rightarrow> 'a Lattice \<Rightarrow> 'a Cell matrix \<Rightarrow> 'a Cell matrix) \<Rightarrow>
   (int \<Rightarrow> int \<Rightarrow> 'a Lattice \<Rightarrow> 'a Cell matrix \<Rightarrow> 'a Cell matrix) \<Rightarrow>
   'a Lattice \<Rightarrow> 'a Cell matrix \<Rightarrow> int \<Rightarrow> int \<Rightarrow> 'a Cell matrix" where
  "CollideAndStream_pass CollideAndStreamCell DealWithInletOutlet L work start_col end_col =
     DealWithInletOutlet start_col end_col L
       (foldl (\<lambda>w c. CollideAndStreamCell c L w) work (CollideAndStream_calls L start_col end_col))"

section \<open>Lattice::Simulate: after the barrier of one step\<close>

text \<open>
  The test \<^verbatim>\<open>step > 2000 && step % refreshSteps == 0\<close>. The remainder is only
  evaluated when the first conjunct holds; a zero \<^verbatim>\<open>refreshSteps\<close> is then a
  division by zero.
\<close>

definition extraction_due :: "nat \<Rightarrow> nat \<Rightarrow> error + bool" where
  "extraction_due k refresh =
     (if k > 2000 then (if refresh = 0 then Inl DivisionByZero else Inr (k mod refresh = 0))
      else Inr False)"

datatype controller_call = Call_swap | Call_GetResults

text \<open>
  The part of the loop body after \<^verbatim>\<open>if (!simulate) break;\<close>: the swap of the two
  grids, then the conditional extraction. The calls made are returned with the new state.
\<close>

definition swap_grids :: "'a simulation \<Rightarrow> 'a simulation" where
  "swap_grids S = S\<lparr>obj := (obj S)\<lparr>lattice := latticeWork S\<rparr>, latticeWork := lattice (obj S)\<rparr>"

definition step_tail ::
  "'a::{zero,plus,minus,times} cell_ops \<Rightarrow> nat \<Rightarrow> 'a simulation
    \<Rightarrow> error + ('a simulation \<times> controller_call list)" where
  "step_tail ops k S =
     (let S1 = swap_grids S in
      case extraction_due k (refreshSteps (obj S1)) of
        Inl e \<Rightarrow> Inl e
      | Inr due \<Rightarrow>
          (if due then Inr (S1\<lparr>obj := GetResults ops (obj S1)\<rparr>, [Call_swap, Call_GetResults])
           else Inr (S1, [Call_swap])))"


section \<open>The barrier and the threads\<close>

text \<open>
  The controller thread (the caller of Simulate) and the worker threads (each running
  CollideAndStream) as an interleaving of atomic actions on the shared members
  \<^verbatim>\<open>wakeup\<close>, \<^verbatim>\<open>processed\<close> and \<^verbatim>\<open>simulate\<close>. A critical section under
  a mutex is one action. A wait on a condition variable with a predicate returns while
  holding the lock with the predicate true, so the wait and the statements up to the
  release of the lock are one guarded action: it has no result (\<open>None\<close>) while the
  predicate is false. Reads and writes of \<^verbatim>\<open>simulate\<close> are taken to be atomic and
  sequentially consistent.
\<close>

datatype controller_pc =
    C_WakeUp          \<comment> \<open>at \<^verbatim>\<open>WakeUp()\<close> in the step loop\<close>
  | C_WaitForData     \<comment> \<open>at \<^verbatim>\<open>WaitForData()\<close>\<close>
  | C_CheckSimulate   \<comment> \<open>at \<^verbatim>\<open>if (!simulate) break;\<close>\<close>
  | C_SwapExtract     \<comment> \<open>at the swap, the extraction test and \<^verbatim>\<open>++step\<close>\<close>
  | C_FinalWakeUp     \<comment> \<open>at \<^verbatim>\<open>WakeUp()\<close> after the loop\<close>
  | C_Join nat        \<comment> \<open>in the join loop, at thread \<open>t\<close>\<close>
  | C_Returned        \<comment> \<open>Simulate has returned\<close>
  | C_Fault           \<comment> \<open>the division by a zero \<^verbatim>\<open>refreshSteps\<close>\<close>

datatype worker_pc =
    W_WaitForWork     \<comment> \<open>at \<^verbatim>\<open>WaitForWork(tid)\<close>\<close>
  | W_CheckSimulate   \<comment> \<open>at \<^verbatim>\<open>if (!simulate)\<close>\<close>
  | W_Work            \<comment> \<open>at the pass over its columns and the inlet/outlet handler\<close>
  | W_Signal          \<comment> \<open>at \<^verbatim>\<open>SignalMoreData()\<close> after the pass\<close>
  | W_SignalExit      \<comment> \<open>at \<^verbatim>\<open>SignalMoreData(); break;\<close>\<close>
  | W_Exited          \<comment> \<open>CollideAndStream has returned\<close>

text \<open>
  The shared members, the step counter of Simulate, the program counters, and history
  variables that record calls: \<open>wakes\<close> the completed calls of WakeUp; per worker the
  returns from WaitForWork, the calls of SignalMoreData and the passes; and \<open>calls\<close>,
  the swaps and the calls of GetResults in order, each with the value of
  \<^verbatim>\<open>step\<close> at the call. The history variables are written only and never decide
  a step.
\<close>

record state =
  wakeup :: "bool list"
  processed :: int
  simulate :: bool
  step :: nat
  controller :: controller_pc
  workers :: "worker_pc list"
  wakes :: nat
  woken :: "nat list"
  signalled :: "nat list"
  passes :: "nat list"
  calls :: "(nat \<times> controller_call) list"

subsection \<open>The four barrier operations\<close>

definition WakeUp :: "state \<Rightarrow> state" where
  "WakeUp s = s\<lparr>wakeup := foldl (\<lambda>w i. w[i := True]) (wakeup s) [0..<length (wakeup s)]\<rparr>"

definition SignalMoreData :: "state \<Rightarrow> state" where
  "SignalMoreData s = s\<lparr>processed := processed s + 1\<rparr>"

definition WaitForData :: "nat \<Rightarrow> state \<Rightarrow> state option" where
  "WaitForData nthreads s =
     (if processed s = static_cast_int (int nthreads) then Some (s\<lparr>processed := 0\<rparr>) else None)"

definition WaitForWork :: "nat \<Rightarrow> state \<Rightarrow> state option" where
  "WaitForWork t s =
     (if wakeup s ! t then Some (s\<lparr>wakeup := (wakeup s)[t := False]\<rparr>) else None)"

subsection \<open>The actions of the threads\<close>

definition bump :: "nat list \<Rightarrow> nat \<Rightarrow> nat list" where
  "bump xs t = xs[t := Suc (xs ! t)]"

definition controller_step :: "nat \<Rightarrow> nat \<Rightarrow> state \<Rightarrow> state option" where
  "controller_step nthreads refresh s =
     (case controller s of
        C_WakeUp \<Rightarrow> Some ((WakeUp s)\<lparr>controller := C_WaitForData, wakes := Suc (wakes s)\<rparr>)
      | C_WaitForData \<Rightarrow>
          (case WaitForData nthreads s of
             None \<Rightarrow> None
           | Some s' \<Rightarrow> Some (s'\<lparr>controller := C_CheckSimulate\<rparr>))
      | C_CheckSimulate \<Rightarrow>
          (if \<not> simulate s then Some (s\<lparr>controller := C_FinalWakeUp\<rparr>)
           else Some (s\<lparr>controller := C_SwapExtract\<rparr>))
      | C_SwapExtract \<Rightarrow>
          (case extraction_due (step s) refresh of
             Inl e \<Rightarrow>
               Some (s\<lparr>controller := C_Fault, calls := calls s @ [(step s, Call_swap)]\<rparr>)
           | Inr due \<Rightarrow>
               Some (s\<lparr>step := (step s + 1) mod 4294967296, controller := C_WakeUp,
                       calls := calls s @ (step s, Call_swap) #
                                (if due then [(step s, Call_GetResults)] else [])\<rparr>))
      | C_FinalWakeUp \<Rightarrow> Some ((WakeUp s)\<lparr>controller := C_Join 0, wakes := Suc (wakes s)\<rparr>)
      | C_Join t \<Rightarrow>
          (if t < nthreads then
             (if t < length (workers s) then
                (if workers s ! t = W_Exited then Some (s\<lparr>controller := C_Join (Suc t)\<rparr>)
                 else None)
              else Some (s\<lparr>controller := C_Join (Suc t)\<rparr>))
           else Some (s\<lparr>controller := C_Returned\<rparr>))
      | C_Returned \<Rightarrow> None
      | C_Fault \<Rightarrow> None)"

definition worker_step :: "nat \<Rightarrow> state \<Rightarrow> state option" where
  "worker_step t s =
     (if t < length (workers s) then
        (case workers s ! t of
           W_WaitForWork \<Rightarrow>
             (case WaitForWork t s of
                None \<Rightarrow> None
              | Some s' \<Rightarrow> Some (s'\<lparr>workers := (workers s')[t := W_CheckSimulate],
                                     woken := bump (woken s') t\<rparr>))
         | W_CheckSimulate \<Rightarrow>
             (if \<not> simulate s then Some (s\<lparr>workers := (workers s)[t := W_SignalExit]\<rparr>)
              else Some (s\<lparr>workers := (workers s)[t := W_Work]\<rparr>))
         | W_Work \<Rightarrow> Some (s\<lparr>workers := (workers s)[t := W_Signal], passes := bump (passes s) t\<rparr>)
         | W_Signal \<Rightarrow>
             Some ((SignalMoreData s)\<lparr>workers := (workers s)[t := W_WaitForWork],
                                      signalled := bump (signalled s) t\<rparr>)
         | W_SignalExit \<Rightarrow>
             Some ((SignalMoreData s)\<lparr>workers := (workers s)[t := W_Exited],
                                      signalled := bump (signalled s) t\<rparr>)
         | W_Exited \<Rightarrow> None)
      else None)"

text \<open>
  An action of the system: a step of the controller, a step of worker \<open>t\<close>, or the
  environment clearing \<^verbatim>\<open>simulate\<close> (the request to stop, possible at any moment while
  the flag is set). Nothing in the model sets the flag again.
\<close>

datatype action = Controller | Worker nat | Stop

definition act :: "nat \<Rightarrow> nat \<Rightarrow> action \<Rightarrow> state \<Rightarrow> state option" where
  "act nthreads refresh a s =
     (case a of
        Controller \<Rightarrow> controller_step nthreads refresh s
      | Worker t \<Rightarrow> worker_step t s
      | Stop \<Rightarrow> (if simulate s then Some (s\<lparr>simulate := False\<rparr>) else None))"

fun run :: "nat \<Rightarrow> nat \<Rightarrow> action list \<Rightarrow> state \<Rightarrow> state option" where
  "run nthreads refresh [] s = Some s"
| "run nthreads refresh (a # as) s =
     (case act nthreads refresh a s of
        None \<Rightarrow> None
      | Some s' \<Rightarrow> run nthreads refresh as s')"

text \<open>
  The state in which the step loop of Simulate starts: \<^verbatim>\<open>processed = 0\<close>, the wake
  flags resized to the thread count and cleared, one worker per spawned thread at its
  first WaitForWork. \<open>sim\<close> is the value of \<^verbatim>\<open>simulate\<close> at that moment.
\<close>

definition Simulate_start :: "nat \<Rightarrow> nat \<Rightarrow> bool \<Rightarrow> error + state" where
  "Simulate_start nthreads lcols sim =
     (case Simulate_threads nthreads lcols of
        Inl e \<Rightarrow> Inl e
      | Inr ths \<Rightarrow>
          Inr \<lparr>wakeup = replicate nthreads False, processed = 0, simulate = sim, step = 0,
               controller = C_WakeUp, workers = map (\<lambda>a. W_WaitForWork) ths,
               wakes = 0, woken = replicate nthreads 0, signalled = replicate nthreads 0,
               passes = replicate nthreads 0, calls = []\<rparr>)"

text \<open>Simulate has returned and every worker thread has ended.\<close>

definition finished :: "state \<Rightarrow> bool" where
  "finished s = (controller s = C_Returned \<and> list_all (\<lambda>p. p = W_Exited) (workers s))"

section \<open>Specification-side definitions\<close>


text \<open>
  The value Init leaves in cell \<open>(i, j)\<close> of a lattice with \<open>r\<close> rows, from the
  cell \<open>c\<close> that the constructor put there: the two branches of the loop body.
\<close>

definition Init_value ::
  "'a::zero cell_ops \<Rightarrow> bool matrix \<Rightarrow> BoundaryConditions \<Rightarrow> nat \<Rightarrow> 'a Cell \<Rightarrow> nat \<Rightarrow> nat
    \<Rightarrow> 'a Cell" where
  "Init_value ops obstacles bc r c i j =
     (if coeff obstacles i j \<or> (Periodic \<noteq> bc \<and> (i = 0 \<or> int i = int r - 1))
      then c\<lparr>density := [0, 0, 0, 0, 0, 0, 0, 0, 0]\<rparr>
      else Cell_Init ops c)"

text \<open>
  The boundaries between the column ranges of \<open>n\<close> workers on \<open>c\<close> columns:
  multiples of the stride, and the column count after the last worker.
\<close>

definition breakpoint :: "nat \<Rightarrow> nat \<Rightarrow> nat \<Rightarrow> int" where
  "breakpoint n c k = (if k = n then int c else int k * int (c div n))"

subsection \<open>An invariant of the barrier\<close>

text \<open>
  Worker \<open>t\<close> has consumed the wake-up of the current cycle and has called
  SignalMoreData for it: its flag is clear and it is back at WaitForWork or has ended.
\<close>

definition worker_done :: "state \<Rightarrow> nat \<Rightarrow> bool" where
  "worker_done s t =
     (\<not> wakeup s ! t \<and> (workers s ! t = W_WaitForWork \<or> workers s ! t = W_Exited))"

definition done_count :: "nat \<Rightarrow> state \<Rightarrow> nat" where
  "done_count n s = card {t. t < n \<and> worker_done s t}"

definition sizes :: "nat \<Rightarrow> state \<Rightarrow> bool" where
  "sizes n s =
     (length (wakeup s) = n \<and> length (workers s) = n \<and> length (woken s) = n \<and>
      length (signalled s) = n \<and> length (passes s) = n)"

text \<open>The state of worker \<open>t\<close> while the controller joins the threads.\<close>

definition joining :: "state \<Rightarrow> nat \<Rightarrow> bool" where
  "joining s t =
     (if wakeup s ! t then workers s ! t = W_WaitForWork \<or> workers s ! t = W_Exited
      else workers s ! t = W_CheckSimulate \<or> workers s ! t = W_SignalExit \<or>
           workers s ! t = W_Exited)"

text \<open>What holds of the shared variables and the workers at each place of the controller.\<close>

definition phase_inv :: "nat \<Rightarrow> state \<Rightarrow> bool" where
  "phase_inv n s =
     (case controller s of
        C_WakeUp \<Rightarrow>
          processed s = 0 \<and> (\<forall>t<n. workers s ! t = W_WaitForWork \<and> \<not> wakeup s ! t)
      | C_SwapExtract \<Rightarrow>
          processed s = 0 \<and> (\<forall>t<n. workers s ! t = W_WaitForWork \<and> \<not> wakeup s ! t)
      | C_WaitForData \<Rightarrow>
          processed s = int (done_count n s) \<and>
          (\<forall>t<n. wakeup s ! t \<longrightarrow> workers s ! t = W_WaitForWork)
      | C_CheckSimulate \<Rightarrow>
          processed s = 0 \<and> (\<forall>t<n. worker_done s t)
      | C_FinalWakeUp \<Rightarrow> \<not> simulate s \<and> (\<forall>t<n. worker_done s t)
      | C_Join k \<Rightarrow>
          \<not> simulate s \<and> k \<le> n \<and> (\<forall>t<k. workers s ! t = W_Exited) \<and>
          (\<forall>t<n. joining s t)
      | C_Returned \<Rightarrow> \<not> simulate s \<and> (\<forall>t<n. workers s ! t = W_Exited)
      | C_Fault \<Rightarrow> True)"

text \<open>A worker leaves its loop only after the flag has been cleared.\<close>

definition exit_inv :: "nat \<Rightarrow> state \<Rightarrow> bool" where
  "exit_inv n s =
     (\<forall>t<n. workers s ! t = W_SignalExit \<or> workers s ! t = W_Exited \<longrightarrow> \<not> simulate s)"

text \<open>Every wake-up of a worker has been consumed by it once, or is pending in its flag.\<close>

definition wake_inv :: "nat \<Rightarrow> state \<Rightarrow> bool" where
  "wake_inv n s = (\<forall>t<n. woken s ! t + (if wakeup s ! t then 1 else 0) = wakes s)"

definition inv :: "nat \<Rightarrow> nat \<Rightarrow> state \<Rightarrow> bool" where
  "inv n r s =
     (sizes n s \<and> phase_inv n s \<and> exit_inv n s \<and> wake_inv n s \<and>
      (r \<noteq> 0 \<longrightarrow> controller s \<noteq> C_Fault))"

subsection \<open>Measures for the shutdown\<close>

text \<open>
  The number of actions a thread can still take once \<^verbatim>\<open>simulate\<close> is false, as a
  rank of its program counter.
\<close>

definition controller_rank :: "nat \<Rightarrow> controller_pc \<Rightarrow> nat" where
  "controller_rank n pc =
     (case pc of
        C_SwapExtract \<Rightarrow> n + 7
      | C_WakeUp \<Rightarrow> n + 6
      | C_WaitForData \<Rightarrow> n + 5
      | C_CheckSimulate \<Rightarrow> n + 4
      | C_FinalWakeUp \<Rightarrow> n + 3
      | C_Join k \<Rightarrow> (n - k) + 2
      | C_Returned \<Rightarrow> 0
      | C_Fault \<Rightarrow> 0)"

definition worker_rank :: "worker_pc \<Rightarrow> nat" where
  "worker_rank pc =
     (case pc of
        W_Work \<Rightarrow> 5
      | W_Signal \<Rightarrow> 4
      | W_WaitForWork \<Rightarrow> 3
      | W_CheckSimulate \<Rightarrow> 2
      | W_SignalExit \<Rightarrow> 1
      | W_Exited \<Rightarrow> 0)"

definition potential :: "nat \<Rightarrow> state \<Rightarrow> nat" where
  "potential n s = controller_rank n (controller s) + sum_list (map worker_rank (workers s))"

text \<open>The calls of WakeUp the controller can still make once \<^verbatim>\<open>simulate\<close> is false.\<close>

definition wake_budget :: "controller_pc \<Rightarrow> nat" where
  "wake_budget pc =
     (case pc of
        C_SwapExtract \<Rightarrow> 2
      | C_WakeUp \<Rightarrow> 2
      | C_WaitForData \<Rightarrow> 1
      | C_CheckSimulate \<Rightarrow> 1
      | C_FinalWakeUp \<Rightarrow> 1
      | C_Join k \<Rightarrow> 0
      | C_Returned \<Rightarrow> 0
      | C_Fault \<Rightarrow> 0)"

text \<open>
  Worker \<open>t\<close> has returned from WaitForWork and is at the test of \<^verbatim>\<open>simulate\<close>,
  or is past it on the way out.
\<close>

definition leaving :: "state \<Rightarrow> nat \<Rightarrow> bool" where
  "leaving s t =
     (workers s ! t = W_CheckSimulate \<or> workers s ! t = W_SignalExit \<or> workers s ! t = W_Exited)"

definition signals_due :: "state \<Rightarrow> nat \<Rightarrow> nat" where
  "signals_due s t = signalled s ! t + (if workers s ! t = W_Exited then 0 else 1)"

subsection \<open>The calls of the controller\<close>

text \<open>
  The calls of the loop body at step \<open>k\<close> after the barrier, the values of
  \<^verbatim>\<open>step\<close> in the first \<open>m\<close> iterations, and what the log of a reachable state
  is made of. A swap logged last in a faulted state is the one before the division by zero.
\<close>

definition tail_calls :: "nat \<Rightarrow> nat \<Rightarrow> (nat \<times> controller_call) list" where
  "tail_calls refresh k =
     (k, Call_swap) # (if k > 2000 \<and> k mod refresh = 0 then [(k, Call_GetResults)] else [])"

definition steps_done :: "nat \<Rightarrow> nat list" where
  "steps_done m = map (\<lambda>i. i mod 4294967296) [0..<m]"

definition fault_calls :: "state \<Rightarrow> (nat \<times> controller_call) list" where
  "fault_calls s = (if controller s = C_Fault then [(step s, Call_swap)] else [])"

definition cadence_inv :: "nat \<Rightarrow> state \<Rightarrow> bool" where
  "cadence_inv r s =
     (\<exists>m. step s = m mod 4294967296 \<and>
          calls s = concat (map (tail_calls r) (steps_done m)) @ fault_calls s)"

definition fault_inv :: "nat \<Rightarrow> state \<Rightarrow> bool" where
  "fault_inv r s = (controller s = C_Fault \<longrightarrow> r = 0 \<and> 2000 < step s)"

section \<open>Concrete inputs\<close>

text \<open>
  Stand-ins over the integers for the members of Cell; they serve to evaluate the
  definitions on concrete lattices.
\<close>

definition demo_ops :: "int cell_ops" where
  "demo_ops =
     \<lparr>Cell_new = \<lparr>density = [0, 0, 0, 0, 0, 0, 0, 0, 0]\<rparr>,
      Cell_Init = (\<lambda>c. c\<lparr>density := [16, 4, 4, 4, 4, 1, 1, 1, 1]\<rparr>),
      Cell_Density = (\<lambda>c. sum_list (density c)),
      Cell_Velocity = (\<lambda>c. (density c ! 1 - density c ! 3, density c ! 2 - density c ! 4)),
      std_sqrt = (\<lambda>v. v)\<rparr>"

text \<open>A 2 x 2 lattice whose top row moves to the right, and a zero results matrix.\<close>

definition demo_wall :: "int Lattice" where
  "demo_wall =
     \<lparr>resultsType = Vorticity, boundaryConditions = BounceBack, refreshSteps = 10,
      useAccelX = False, numThreads = 4,
      latticeObstacles = Constant 2 2 False,
      lattice = \<lparr>rows = 2, cols = 2,
                 coeff = (\<lambda>i j. if i = 0 then \<lparr>density = [0, 1, 0, 0, 0, 0, 0, 0, 0]\<rparr>
                                 else \<lparr>density = [0, 0, 0, 0, 0, 0, 0, 0, 0]\<rparr>)\<rparr>,
      results = Constant 2 2 0\<rparr>"


text \<open>A lattice object with a 3 x 2 obstacle mask and four worker threads.\<close>

definition demo_narrow :: "int Lattice" where
  "demo_narrow =
     \<lparr>resultsType = Density, boundaryConditions = BounceBack, refreshSteps = 10,
      useAccelX = False, numThreads = 4,
      latticeObstacles = Constant 3 2 False,
      lattice = Constant 0 0 \<lparr>density = []\<rparr>,
      results = Constant 0 0 0\<rparr>"

definition demo_sim :: "int simulation" where
  "demo_sim =
     \<lparr>obj = demo_wall,
      latticeWork = Constant 2 2 \<lparr>density = [16, 4, 4, 4, 4, 1, 1, 1, 1]\<rparr>,
      threads = []\<rparr>"

text \<open>
  States of a run with two workers: at the start of the step loop, after the first
  wake-up has been consumed by worker 0, the same with the flag cleared, and after
  Simulate has returned.
\<close>

definition demo_start :: state where
  "demo_start =
     \<lparr>wakeup = [False, False], processed = 0, simulate = True, step = 0,
      controller = C_WakeUp, workers = [W_WaitForWork, W_WaitForWork],
      wakes = 0, woken = [0, 0], signalled = [0, 0], passes = [0, 0], calls = []\<rparr>"

definition demo_woken :: state where
  "demo_woken =
     \<lparr>wakeup = [False, True], processed = 0, simulate = True, step = 0,
      controller = C_WaitForData, workers = [W_CheckSimulate, W_WaitForWork],
      wakes = 1, woken = [1, 0], signalled = [0, 0], passes = [0, 0], calls = []\<rparr>"

definition demo_stopped :: state where
  "demo_stopped = demo_woken\<lparr>simulate := False\<rparr>"

definition demo_finished :: state where
  "demo_finished =
     \<lparr>wakeup = [True, True], processed = 0, simulate = False, step = 0,
      controller = C_Returned, workers = [W_Exited, W_Exited], wakes = 2,
      woken = [1, 1], signalled = [1, 1], passes = [0, 0], calls = []\<rparr>"

text \<open>The same run with the flag set: before and after the first swap.\<close>

definition demo_swapping :: state where
  "demo_swapping =
     \<lparr>wakeup = [False, False], processed = 0, simulate = True, step = 0,
      controller = C_SwapExtract, workers = [W_WaitForWork, W_WaitForWork],
      wakes = 1, woken = [1, 1], signalled = [1, 1], passes = [1, 1], calls = []\<rparr>"

definition demo_cycled :: state where
  "demo_cycled = demo_swapping\<lparr>step := 1, controller := C_WakeUp, calls := [(0, Call_swap)]\<rparr>"

section \<open>Auxiliary facts\<close>

subsection \<open>Casts, matrices and the loops over them\<close>

lemma static_cast_int_id:
  "- 2147483648 \<le> v \<Longrightarrow> v < 2147483648 \<Longrightarrow> static_cast_int v = v"
  by (simp add: static_cast_int_def)

lemma set_coeff_simps:
  "rows (set_coeff m i j v) = rows m"
  "cols (set_coeff m i j v) = cols m"
  "coeff (set_coeff m i j v) i' j' = (if i' = i \<and> j' = j then v else coeff m i' j')"
  by (simp_all add: set_coeff_def)




lemma Init_cell_eq:
  "Init_cell ops obstacles bc lat j i =
     set_coeff lat i j (Init_value ops obstacles bc (rows lat) (coeff lat i j) i j)"
  by (auto simp: Init_cell_def Init_value_def)

lemma Init_inner:
  "rows (foldl (\<lambda>m' i. Init_cell ops ob bc m' j i) m [0..<n]) = rows m \<and>
   cols (foldl (\<lambda>m' i. Init_cell ops ob bc m' j i) m [0..<n]) = cols m \<and>
   coeff (foldl (\<lambda>m' i. Init_cell ops ob bc m' j i) m [0..<n]) i' j' =
     (if j' = j \<and> i' < n then Init_value ops ob bc (rows m) (coeff m i' j') i' j'
      else coeff m i' j')"
  by (induction n) (auto simp: Init_cell_eq set_coeff_simps less_Suc_eq)

lemma Init_outer:
  "rows (foldl (\<lambda>m j. foldl (\<lambda>m' i. Init_cell ops ob bc m' j i) m [0..<rows m]) lat [0..<k]) = rows lat \<and>
   cols (foldl (\<lambda>m j. foldl (\<lambda>m' i. Init_cell ops ob bc m' j i) m [0..<rows m]) lat [0..<k]) = cols lat \<and>
   coeff (foldl (\<lambda>m j. foldl (\<lambda>m' i. Init_cell ops ob bc m' j i) m [0..<rows m]) lat [0..<k]) i' j' =
     (if j' < k \<and> i' < rows lat then Init_value ops ob bc (rows lat) (coeff lat i' j') i' j'
      else coeff lat i' j')"
  by (induction k) (auto simp: Init_inner less_Suc_eq)

lemma Init_loops_simps:
  "rows (Init_loops ops ob bc lat) = rows lat"
  "cols (Init_loops ops ob bc lat) = cols lat"
  "coeff (Init_loops ops ob bc lat) i j =
     (if i < rows lat \<and> j < cols lat then Init_value ops ob bc (rows lat) (coeff lat i j) i j
      else coeff lat i j)"
  using Init_outer [of ops ob bc lat "cols lat" i j]
  by (auto simp: Init_loops_def)

lemma Init_fields:
  "rows (lattice (Init ops L)) = rows (latticeObstacles L)"
  "cols (lattice (Init ops L)) = cols (latticeObstacles L)"
  "results (Init ops L) = Constant (rows (latticeObstacles L)) (cols (latticeObstacles L)) 0"
  "latticeObstacles (Init ops L) = latticeObstacles L"
  "boundaryConditions (Init ops L) = boundaryConditions L"
  "numThreads (Init ops L) = numThreads L"
  "refreshSteps (Init ops L) = refreshSteps L"
  "resultsType (Init ops L) = resultsType L"
  "useAccelX (Init ops L) = useAccelX L"
  by (simp_all add: Init_def Let_def Init_loops_simps CellLattice_def Constant_def)

lemma Init_coeff:
  "i < rows (latticeObstacles L) \<Longrightarrow> j < cols (latticeObstacles L) \<Longrightarrow>
   coeff (lattice (Init ops L)) i j =
     Init_value ops (latticeObstacles L) (boundaryConditions L) (rows (latticeObstacles L))
       (Cell_new ops) i j"
  by (simp add: Init_def Let_def Init_loops_simps CellLattice_def Constant_def)






subsection \<open>The spawning loop\<close>

lemma spawn_loop_closed:
  "0 < n \<Longrightarrow> int n < 2147483648 \<Longrightarrow> 0 \<le> t \<Longrightarrow>
   spawn_loop n c w t s =
     map (\<lambda>k. \<lparr>tid = k, startCol = s + (k - t) * w,
               endCol = (if k = int n - 1 then static_cast_int c else s + (k - t + 1) * w)\<rparr>)
       [t .. int n - 1]"
proof (induction n c w t s rule: spawn_loop.induct)
  case (1 n c w t s)
  have cast: "static_cast_int (int n) = int n"
    using 1 by (simp add: static_cast_int_id)
  have cast1: "static_cast_int ((int n - 1) mod 4294967296) = int n - 1"
    using 1 by (simp add: static_cast_int_id)
  show ?case
  proof (cases "t < int n")
    case True
    have IH: "spawn_loop n c w (t + 1) (s + w) =
      map (\<lambda>k. \<lparr>tid = k, startCol = (s + w) + (k - (t + 1)) * w,
               endCol = (if k = int n - 1 then static_cast_int c else (s + w) + (k - (t + 1) + 1) * w)\<rparr>)
       [t + 1 .. int n - 1]"
      using 1 True cast by simp
    have up: "[t .. int n - 1] = t # [t + 1 .. int n - 1]"
      using True by (simp add: upto_rec1)
    show ?thesis
      apply (subst spawn_loop.simps)
      apply (simp only: cast cast1 True if_True Let_def IH up list.map)
      apply (simp add: algebra_simps)
      done
  next
    case False
    then show ?thesis
      by (subst spawn_loop.simps) (simp add: cast)
  qed
qed

lemma spawn_loop_length:
  "int n < 2147483648 \<Longrightarrow> 0 \<le> t \<Longrightarrow> t \<le> int n \<Longrightarrow>
   length (spawn_loop n c w t x) = nat (int n - t)"
proof (induction n c w t x rule: spawn_loop.induct)
  case (1 n c w t x)
  have cast: "static_cast_int (int n) = int n"
    using 1 by (simp add: static_cast_int_id)
  show ?case
  proof (cases "t < int n")
    case True
    then have "length (spawn_loop n c w (t + 1) (x + w)) = nat (int n - (t + 1))"
      using 1 cast by simp
    then show ?thesis
      using True by (subst spawn_loop.simps) (simp add: cast Let_def nat_diff_distrib)
  next
    case False
    then show ?thesis using 1 by (subst spawn_loop.simps) (simp add: cast)
  qed
qed

lemma Simulate_threads_closed:
  assumes "1 \<le> n" "int n < 2147483648" "int c < 2147483648"
  shows "Simulate_threads n c =
     Inr (map (\<lambda>k. \<lparr>tid = k, startCol = k * int (c div n),
               endCol = (if k = int n - 1 then int c else (k + 1) * int (c div n))\<rparr>)
       [0 .. int n - 1])"
proof -
  have "c div n \<le> c" by simp
  then have "int (c div n) < 2147483648" using assms by linarith
  then have "static_cast_int (int (c div n)) = int (c div n)"
    by (intro static_cast_int_id) simp_all
  then have w: "static_cast_int (int c div int n) = int (c div n)"
    by (simp add: zdiv_int)
  have c: "static_cast_int (int c) = int c"
    using assms by (simp add: static_cast_int_id)
  have "spawn_loop n (int c) (int (c div n)) 0 0 =
      map (\<lambda>k. \<lparr>tid = k, startCol = 0 + (k - 0) * int (c div n),
               endCol = (if k = int n - 1 then static_cast_int (int c)
                         else 0 + (k - 0 + 1) * int (c div n))\<rparr>)
       [0 .. int n - 1]"
    using assms by (intro spawn_loop_closed) simp_all
  then show ?thesis
    using assms by (simp add: Simulate_threads_def w c)
qed

lemma mono_chain:
  fixes b :: "nat \<Rightarrow> int"
  shows "(\<forall>k<n. b k \<le> b (Suc k)) \<Longrightarrow> j \<le> n \<Longrightarrow> i \<le> j \<Longrightarrow> b i \<le> b j"
proof (induction j)
  case 0
  then show ?case by simp
next
  case (Suc j)
  show ?case
  proof (cases "i = Suc j")
    case True
    then show ?thesis by simp
  next
    case False
    with Suc.prems have "i \<le> j" "j < n" by simp_all
    with Suc have "b i \<le> b j" "b j \<le> b (Suc j)" by simp_all
    then show ?thesis by simp
  qed
qed

lemma union_intervals:
  fixes b :: "nat \<Rightarrow> int"
  shows "(\<forall>k<n. b k \<le> b (Suc k)) \<Longrightarrow> (\<Union>k<n. {b k ..< b (Suc k)}) = {b 0 ..< b n}"
proof (induction n)
  case 0
  then show ?case by simp
next
  case (Suc n)
  have le: "b 0 \<le> b n" using mono_chain [of n b n 0] Suc.prems by simp
  have "(\<Union>k<Suc n. {b k ..< b (Suc k)}) = {b 0 ..< b n} \<union> {b n ..< b (Suc n)}"
    using Suc by (simp add: lessThan_Suc Un_commute)
  also have "\<dots> = {b 0 ..< b (Suc n)}"
    using le Suc.prems by (intro ivl_disj_un) simp_all
  finally show ?case .
qed

lemma disjoint_intervals:
  fixes b :: "nat \<Rightarrow> int"
  assumes "\<forall>k<n. b k \<le> b (Suc k)" "t < n" "u < n" "t \<noteq> u"
  shows "{b t ..< b (Suc t)} \<inter> {b u ..< b (Suc u)} = {}"
proof -
  have "b (Suc t) \<le> b u \<or> b (Suc u) \<le> b t"
  proof (cases "t < u")
    case True
    then show ?thesis using mono_chain [of n b u "Suc t"] assms by simp
  next
    case False
    then have "u < t" using assms by simp
    then show ?thesis using mono_chain [of n b t "Suc u"] assms by simp
  qed
  then show ?thesis by auto
qed

lemma breakpoint_mono: 
  assumes "1 \<le> n" shows "\<forall>k<n. breakpoint n c k \<le> breakpoint n c (Suc k)"
proof (intro allI impI)
  fix k assume k: "k < n"
  have "k * (c div n) \<le> n * (c div n)" using k by simp
  also have "\<dots> \<le> c" by simp
  finally have last: "int k * int (c div n) \<le> int c" 
    by (metis of_nat_mult of_nat_le_iff)
  have "k * (c div n) \<le> Suc k * (c div n)" by simp
  then have "int k * int (c div n) \<le> int (Suc k) * int (c div n)"
    by (metis of_nat_mult of_nat_le_iff)
  with last k show "breakpoint n c k \<le> breakpoint n c (Suc k)"
    by (simp add: breakpoint_def)
qed

subsection \<open>The kernel calls of a pass\<close>

lemma column_calls_set:
  "c \<in> set (column_calls sc ac rm1 cm1 x) \<longleftrightarrow>
     cell_x c = x \<and> xInsideBoundaryOrUseAccel c = (ac \<or> (x > 0 \<and> x < cm1)) \<and>
     (cell_y c = 0 \<and> collideUpDown c = sc \<or>
      1 \<le> cell_y c \<and> cell_y c \<le> rm1 - 1 \<and> collideUpDown c = True \<or>
      cell_y c = rm1 \<and> collideUpDown c = sc)"
  by (cases c) (auto simp: column_calls_def Let_def)

subsection \<open>The barrier: an invariant of the reachable states\<close>

lemma WakeUp_loop:
  "length (foldl (\<lambda>w i. w[i := True]) w [0..<n]) = length w \<and>
   (n \<le> length w \<longrightarrow> t < length w \<longrightarrow>
      foldl (\<lambda>w i. w[i := True]) w [0..<n] ! t = (if t < n then True else w ! t))"
  by (induction n) (auto simp: nth_list_update less_Suc_eq)

lemma length_wakeup_WakeUp [simp]: "length (wakeup (WakeUp s)) = length (wakeup s)"
  by (simp add: WakeUp_def WakeUp_loop)

lemma nth_wakeup_WakeUp [simp]: "t < length (wakeup s) \<Longrightarrow> wakeup (WakeUp s) ! t"
  using WakeUp_loop [of "wakeup s" "length (wakeup s)" t] by (simp add: WakeUp_def)

lemma WakeUp_others [simp]:
  "processed (WakeUp s) = processed s" "simulate (WakeUp s) = simulate s"
  "step (WakeUp s) = step s" "controller (WakeUp s) = controller s"
  "workers (WakeUp s) = workers s" "wakes (WakeUp s) = wakes s"
  "woken (WakeUp s) = woken s" "signalled (WakeUp s) = signalled s"
  "passes (WakeUp s) = passes s" "calls (WakeUp s) = calls s"
  by (simp_all add: WakeUp_def)

lemma done_count_le: "done_count n s \<le> n"
proof -
  have "card {t. t < n \<and> worker_done s t} \<le> card {..<n}"
    by (intro card_mono) auto
  then show ?thesis by (simp add: done_count_def)
qed

lemma done_count_all: "done_count n s = n \<Longrightarrow> t < n \<Longrightarrow> worker_done s t"
proof -
  assume a: "done_count n s = n" and t: "t < n"
  have "{t. t < n \<and> worker_done s t} = {..<n}"
    by (intro card_subset_eq) (use a in \<open>auto simp: done_count_def\<close>)
  then show ?thesis using t by auto
qed

lemma done_count_full: "(\<forall>t<n. worker_done s t) \<Longrightarrow> done_count n s = n"
proof -
  assume "\<forall>t<n. worker_done s t"
  then have "{t. t < n \<and> worker_done s t} = {..<n}" by auto
  then show ?thesis by (simp add: done_count_def)
qed

lemma done_count_none: "(\<forall>t<n. \<not> worker_done s t) \<Longrightarrow> done_count n s = 0"
  by (simp add: done_count_def)

lemma done_count_same:
  "(\<forall>u<n. worker_done s' u = worker_done s u) \<Longrightarrow> done_count n s' = done_count n s"
proof -
  assume "\<forall>u<n. worker_done s' u = worker_done s u"
  then have "{t. t < n \<and> worker_done s' t} = {t. t < n \<and> worker_done s t}" by auto
  then show ?thesis by (simp add: done_count_def)
qed

lemma done_count_Suc:
  assumes "t < n" "\<not> worker_done s t" "worker_done s' t"
    "\<forall>u<n. u \<noteq> t \<longrightarrow> worker_done s' u = worker_done s u"
  shows "done_count n s' = Suc (done_count n s)"
proof -
  have "{u. u < n \<and> worker_done s' u} = insert t {u. u < n \<and> worker_done s u}"
    using assms by auto
  moreover have "t \<notin> {u. u < n \<and> worker_done s u}" using assms by simp
  moreover have "finite {u. u < n \<and> worker_done s u}" by simp
  ultimately show ?thesis by (simp add: done_count_def)
qed

lemma sizes_worker: "sizes n s \<Longrightarrow> worker_step t s = Some s' \<Longrightarrow> sizes n s'"
  by (auto simp: worker_step_def sizes_def WaitForWork_def SignalMoreData_def bump_def
      split: if_splits worker_pc.splits option.splits)

lemma exit_worker: "sizes n s \<Longrightarrow> exit_inv n s \<Longrightarrow> worker_step t s = Some s' \<Longrightarrow> exit_inv n s'"
  by (auto simp: worker_step_def sizes_def exit_inv_def WaitForWork_def SignalMoreData_def
      nth_list_update split: if_splits worker_pc.splits option.splits)

lemma wake_worker: "sizes n s \<Longrightarrow> wake_inv n s \<Longrightarrow> worker_step t s = Some s' \<Longrightarrow> wake_inv n s'"
  by (auto simp: worker_step_def sizes_def wake_inv_def WaitForWork_def SignalMoreData_def
      bump_def nth_list_update split: if_splits worker_pc.splits option.splits)

lemma ctrl_worker: "worker_step t s = Some s' \<Longrightarrow> controller s' = controller s"
  by (auto simp: worker_step_def WaitForWork_def SignalMoreData_def
      split: if_splits worker_pc.splits option.splits)

lemma done_count_worker:
  assumes sz: "sizes n s"
    and fl: "\<forall>u<n. wakeup s ! u \<longrightarrow> workers s ! u = W_WaitForWork"
    and st: "worker_step t s = Some s'"
  shows "processed s' - int (done_count n s') = processed s - int (done_count n s)"
proof -
  have t: "t < n" using st sz by (auto simp: worker_step_def sizes_def split: if_splits)
  have others: "\<forall>u<n. u \<noteq> t \<longrightarrow> worker_done s' u = worker_done s u"
    using st sz
    by (auto simp: worker_step_def sizes_def worker_done_def WaitForWork_def
        SignalMoreData_def split: if_splits worker_pc.splits option.splits)
  show ?thesis
  proof (cases "workers s ! t = W_Signal \<or> workers s ! t = W_SignalExit")
    case True
    then have nw: "\<not> wakeup s ! t" using fl t by auto
    have "\<not> worker_done s t" using True by (auto simp: worker_done_def)
    moreover have "worker_done s' t" using True st sz t nw
      by (auto simp: worker_step_def sizes_def worker_done_def SignalMoreData_def
          split: if_splits)
    ultimately have "done_count n s' = Suc (done_count n s)"
      using t others by (intro done_count_Suc) auto
    moreover have "processed s' = processed s + 1" using True st
      by (auto simp: worker_step_def SignalMoreData_def split: if_splits)
    ultimately show ?thesis by simp
  next
    case False
    have a: "\<not> worker_done s t" using False st fl t
      by (auto simp: worker_step_def worker_done_def WaitForWork_def
          split: if_splits worker_pc.splits option.splits)
    have b: "\<not> worker_done s' t" using False st sz t
      by (auto simp: worker_step_def sizes_def worker_done_def WaitForWork_def
          split: if_splits worker_pc.splits option.splits)
    have "done_count n s' = done_count n s"
      using a b others by (intro done_count_same) (metis)
    moreover have "processed s' = processed s" using False st
      by (auto simp: worker_step_def WaitForWork_def
          split: if_splits worker_pc.splits option.splits)
    ultimately show ?thesis by simp
  qed
qed

lemma worker_step_frame:
  assumes "worker_step t s = Some s'"
  shows "simulate s' = simulate s" "length (workers s') = length (workers s)"
    "length (wakeup s') = length (wakeup s)"
    "u \<noteq> t \<Longrightarrow> wakeup s' ! u = wakeup s ! u" "u \<noteq> t \<Longrightarrow> workers s' ! u = workers s ! u"
  using assms
  by (auto simp: worker_step_def WaitForWork_def SignalMoreData_def
      split: if_splits worker_pc.splits option.splits)

lemma worker_step_effect:
  assumes "worker_step t s = Some s'" "length (wakeup s) = length (workers s)"
  shows "t < length (workers s) \<and>
    ((workers s ! t = W_WaitForWork \<and> wakeup s ! t \<and>
        workers s' ! t = W_CheckSimulate \<and> \<not> wakeup s' ! t \<and> processed s' = processed s) \<or>
     (workers s ! t = W_CheckSimulate \<and> \<not> simulate s \<and>
        workers s' ! t = W_SignalExit \<and> wakeup s' ! t = wakeup s ! t \<and> processed s' = processed s) \<or>
     (workers s ! t = W_CheckSimulate \<and> simulate s \<and>
        workers s' ! t = W_Work \<and> wakeup s' ! t = wakeup s ! t \<and> processed s' = processed s) \<or>
     (workers s ! t = W_Work \<and>
        workers s' ! t = W_Signal \<and> wakeup s' ! t = wakeup s ! t \<and> processed s' = processed s) \<or>
     (workers s ! t = W_Signal \<and>
        workers s' ! t = W_WaitForWork \<and> wakeup s' ! t = wakeup s ! t \<and>
        processed s' = processed s + 1) \<or>
     (workers s ! t = W_SignalExit \<and>
        workers s' ! t = W_Exited \<and> wakeup s' ! t = wakeup s ! t \<and>
        processed s' = processed s + 1))"
  using assms
  by (auto simp: worker_step_def WaitForWork_def SignalMoreData_def
      split: if_splits worker_pc.splits option.splits)

lemma joining_worker:
  assumes st: "worker_step t s = Some s'" and len: "length (wakeup s) = length (workers s)"
    and ns: "\<not> simulate s" and j: "joining s u"
  shows "joining s' u"
proof (cases "u = t")
  case True
  show ?thesis using worker_step_effect [OF st len] j ns unfolding True joining_def
    by (elim conjE disjE) (auto split: if_splits)
next
  case False
  then show ?thesis using worker_step_frame(4,5) [OF st False] j by (simp add: joining_def)
qed

lemma exited_worker:
  assumes st: "worker_step t s = Some s'" and e: "workers s ! u = W_Exited"
  shows "workers s' ! u = W_Exited"
proof (cases "u = t")
  case True
  then show ?thesis using st e
    by (auto simp: worker_step_def split: if_splits)
next
  case False
  then show ?thesis using worker_step_frame(5) [OF st False] e by simp
qed

lemma phase_worker:
  assumes sz: "sizes n s" and ph: "phase_inv n s" and st: "worker_step t s = Some s'"
  shows "phase_inv n s'"
proof (cases "controller s")
  case C_WaitForData
  then have fl: "\<forall>u<n. wakeup s ! u \<longrightarrow> workers s ! u = W_WaitForWork"
    and pr: "processed s = int (done_count n s)"
    using ph by (simp_all add: phase_inv_def)
  have "processed s' = int (done_count n s')"
    using done_count_worker [OF sz fl st] pr by simp
  moreover have "\<forall>u<n. wakeup s' ! u \<longrightarrow> workers s' ! u = W_WaitForWork"
    using st sz fl
    by (auto simp: worker_step_def sizes_def WaitForWork_def SignalMoreData_def
        nth_list_update split: if_splits worker_pc.splits option.splits)
  ultimately show ?thesis
    using C_WaitForData ctrl_worker [OF st] by (simp add: phase_inv_def)
next
  case (C_Join k)
  have len: "length (wakeup s) = length (workers s)" using sz by (simp add: sizes_def)
  have ns: "\<not> simulate s" using ph C_Join by (simp add: phase_inv_def)
  have "\<forall>u<n. joining s' u"
    using ph C_Join joining_worker [OF st len ns] by (simp add: phase_inv_def)
  moreover have "\<forall>u<k. workers s' ! u = W_Exited"
    using ph C_Join exited_worker [OF st] by (simp add: phase_inv_def)
  ultimately show ?thesis
    using ph C_Join ctrl_worker [OF st] worker_step_frame(1) [OF st]
    by (simp add: phase_inv_def)
qed (use sz ph st in \<open>auto simp: worker_step_def sizes_def phase_inv_def worker_done_def
      WaitForWork_def SignalMoreData_def nth_list_update
      split: if_splits worker_pc.splits option.splits\<close>)

lemma worker_done_upd [simp]:
  "worker_done (s\<lparr>controller := c\<rparr>) t = worker_done s t"
  "worker_done (s\<lparr>processed := p\<rparr>) t = worker_done s t"
  "worker_done (s\<lparr>simulate := b\<rparr>) t = worker_done s t"
  "worker_done (s\<lparr>step := k\<rparr>) t = worker_done s t"
  "worker_done (s\<lparr>wakes := w\<rparr>) t = worker_done s t"
  "worker_done (s\<lparr>calls := l\<rparr>) t = worker_done s t"
  by (simp_all add: worker_done_def)

lemma joining_upd [simp]:
  "joining (s\<lparr>controller := c\<rparr>) t = joining s t"
  "joining (s\<lparr>processed := p\<rparr>) t = joining s t"
  "joining (s\<lparr>simulate := b\<rparr>) t = joining s t"
  "joining (s\<lparr>step := k\<rparr>) t = joining s t"
  "joining (s\<lparr>wakes := w\<rparr>) t = joining s t"
  "joining (s\<lparr>calls := l\<rparr>) t = joining s t"
  by (simp_all add: joining_def)

lemma done_count_upd [simp]:
  "done_count n (s\<lparr>controller := c\<rparr>) = done_count n s"
  "done_count n (s\<lparr>processed := p\<rparr>) = done_count n s"
  "done_count n (s\<lparr>simulate := b\<rparr>) = done_count n s"
  "done_count n (s\<lparr>step := k\<rparr>) = done_count n s"
  "done_count n (s\<lparr>wakes := w\<rparr>) = done_count n s"
  "done_count n (s\<lparr>calls := l\<rparr>) = done_count n s"
  by (simp_all add: done_count_def)

lemma inv_worker: "inv n r s \<Longrightarrow> worker_step t s = Some s' \<Longrightarrow> inv n r s'"
  using sizes_worker [of n s t s'] phase_worker [of n s t s'] exit_worker [of n s t s']
    wake_worker [of n s t s'] ctrl_worker [of t s s']
  by (simp add: inv_def)

lemma inv_stop: "inv n r s \<Longrightarrow> inv n r (s\<lparr>simulate := False\<rparr>)"
  by (simp add: inv_def sizes_def phase_inv_def exit_inv_def wake_inv_def
      split: controller_pc.splits)

lemma extraction_due_fault: "extraction_due k r = Inl e \<Longrightarrow> r = 0"
  by (auto simp: extraction_due_def split: if_splits)

lemma inv_controller:
  assumes i: "inv n r s" and n: "int n < 2147483648" and st: "controller_step n r s = Some s'"
  shows "inv n r s'"
proof -
  have sz: "sizes n s" and ph: "phase_inv n s" and ex: "exit_inv n s" and wk: "wake_inv n s"
    and fa: "r \<noteq> 0 \<longrightarrow> controller s \<noteq> C_Fault"
    using i by (simp_all add: inv_def)
  have cast: "static_cast_int (int n) = int n"
    using n by (simp add: static_cast_int_id)
  show ?thesis
  proof (cases "controller s")
    case C_WakeUp
    then have s': "s' = (WakeUp s)\<lparr>controller := C_WaitForData, wakes := Suc (wakes s)\<rparr>"
      using st by (simp add: controller_step_def)
    have "done_count n s' = 0"
      using sz by (intro done_count_none) (simp add: s' worker_done_def sizes_def)
    then show ?thesis
      using sz ph ex wk C_WakeUp
      by (auto simp: s' inv_def sizes_def phase_inv_def exit_inv_def wake_inv_def)
  next
    case C_WaitForData
    then have p: "processed s = int n" and s': "s' = s\<lparr>processed := 0, controller := C_CheckSimulate\<rparr>"
      using st cast by (auto simp: controller_step_def WaitForData_def split: if_splits)
    have "done_count n s = n" using ph C_WaitForData p by (simp add: phase_inv_def)
    then have "\<forall>t<n. worker_done s t" using done_count_all by blast
    then show ?thesis
      using sz ex wk
      by (auto simp: s' inv_def sizes_def phase_inv_def exit_inv_def wake_inv_def worker_done_def)
  next
    case C_CheckSimulate
    show ?thesis
    proof (cases "simulate s")
      case True
      then have s': "s' = s\<lparr>controller := C_SwapExtract\<rparr>"
        using st C_CheckSimulate by (simp add: controller_step_def)
      have "\<forall>t<n. workers s ! t = W_WaitForWork \<and> \<not> wakeup s ! t"
        using ph ex True C_CheckSimulate
        by (auto simp: phase_inv_def exit_inv_def worker_done_def)
      then show ?thesis
        using sz ph ex wk C_CheckSimulate
        by (auto simp: s' inv_def sizes_def phase_inv_def exit_inv_def wake_inv_def)
    next
      case False
      then have s': "s' = s\<lparr>controller := C_FinalWakeUp\<rparr>"
        using st C_CheckSimulate by (simp add: controller_step_def)
      show ?thesis
        using sz ph ex wk C_CheckSimulate False
        by (auto simp: s' inv_def sizes_def phase_inv_def exit_inv_def wake_inv_def
            worker_done_def)
    qed
  next
    case C_SwapExtract
    then show ?thesis
      using sz ph ex wk st
      by (auto simp: inv_def sizes_def phase_inv_def exit_inv_def wake_inv_def
          controller_step_def dest: extraction_due_fault split: sum.splits)
  next
    case C_FinalWakeUp
    then have s': "s' = (WakeUp s)\<lparr>controller := C_Join 0, wakes := Suc (wakes s)\<rparr>"
      using st by (simp add: controller_step_def)
    show ?thesis
      using sz ph ex wk C_FinalWakeUp
      by (auto simp: s' inv_def sizes_def phase_inv_def exit_inv_def wake_inv_def
          worker_done_def joining_def)
  next
    case (C_Join k)
    then show ?thesis
      using sz ph ex wk st
      by (auto simp: inv_def sizes_def phase_inv_def exit_inv_def wake_inv_def
          controller_step_def less_Suc_eq split: if_splits)
  next
    case C_Returned
    then show ?thesis using st by (simp add: controller_step_def)
  next
    case C_Fault
    then show ?thesis using st by (simp add: controller_step_def)
  qed
qed

lemma inv_act:
  assumes "inv n r s" "int n < 2147483648" "act n r a s = Some s'"
  shows "inv n r s'"
proof (cases a)
  case Controller
  then show ?thesis using assms inv_controller [of n r s s'] by (simp add: act_def)
next
  case (Worker t)
  then show ?thesis using assms inv_worker [of n r s t s'] by (simp add: act_def)
next
  case Stop
  then show ?thesis using assms inv_stop [of n r s] by (auto simp: act_def split: if_splits)
qed

lemma inv_run:
  "inv n r s \<Longrightarrow> int n < 2147483648 \<Longrightarrow> run n r as s = Some s' \<Longrightarrow> inv n r s'"
proof (induction as arbitrary: s)
  case Nil
  then show ?case by simp
next
  case (Cons a as)
  from Cons.prems obtain s1 where a: "act n r a s = Some s1" and r: "run n r as s1 = Some s'"
    by (auto split: option.splits)
  have "inv n r s1" using inv_act [OF Cons.prems(1,2) a] .
  then show ?case using Cons.IH [OF _ Cons.prems(2) r] by simp
qed

lemma Simulate_start_state:
  assumes "Simulate_start n c sim = Inr s0" "int n < 2147483648"
  shows "0 < n" "wakeup s0 = replicate n False" "processed s0 = 0" "simulate s0 = sim"
    "step s0 = 0" "controller s0 = C_WakeUp" "workers s0 = replicate n W_WaitForWork"
    "wakes s0 = 0" "woken s0 = replicate n 0" "signalled s0 = replicate n 0"
    "passes s0 = replicate n 0" "calls s0 = []"
proof -
  show n: "0 < n" using assms
    by (auto simp: Simulate_start_def Simulate_threads_def split: if_splits)
  have len: "length (spawn_loop n (int c) (static_cast_int (int c div int n)) 0 0) = n"
    using assms spawn_loop_length [of n 0] by simp
  have s0: "s0 = \<lparr>wakeup = replicate n False, processed = 0, simulate = sim, step = 0,
               controller = C_WakeUp,
               workers = map (\<lambda>a. W_WaitForWork)
                 (spawn_loop n (int c) (static_cast_int (int c div int n)) 0 0),
               wakes = 0, woken = replicate n 0, signalled = replicate n 0,
               passes = replicate n 0, calls = []\<rparr>"
    using assms n by (simp add: Simulate_start_def Simulate_threads_def)
  show "workers s0 = replicate n W_WaitForWork"
    by (simp add: s0 map_replicate_const len)
  show "wakeup s0 = replicate n False" "processed s0 = 0" "simulate s0 = sim"
    "step s0 = 0" "controller s0 = C_WakeUp" 
    "wakes s0 = 0" "woken s0 = replicate n 0" "signalled s0 = replicate n 0"
    "passes s0 = replicate n 0" "calls s0 = []"
    by (simp_all add: s0)
qed

lemma inv_start:
  assumes "Simulate_start n c sim = Inr s0" "int n < 2147483648"
  shows "inv n r s0"
  using Simulate_start_state [OF assms]
  by (simp add: inv_def sizes_def phase_inv_def exit_inv_def wake_inv_def)

lemma inv_reachable:
  assumes "Simulate_start n c sim = Inr s0" "int n < 2147483648" "run n r as s0 = Some s"
  shows "inv n r s"
  using inv_run [OF inv_start [OF assms(1,2)] assms(2,3)] .

lemma finished_iff: "inv n r s \<Longrightarrow> finished s \<longleftrightarrow> controller s = C_Returned"
  by (auto simp: finished_def inv_def phase_inv_def sizes_def list_all_length)

lemma worker_enabled:
  assumes "t < length (workers s)"
    "workers s ! t = W_WaitForWork \<and> wakeup s ! t \<or> workers s ! t = W_CheckSimulate \<or>
     workers s ! t = W_Work \<or> workers s ! t = W_Signal \<or> workers s ! t = W_SignalExit"
  shows "worker_step t s \<noteq> None"
  using assms by (auto simp: worker_step_def WaitForWork_def)

lemma progress:
  assumes i: "inv n r s" and n: "int n < 2147483648" and r: "r \<noteq> 0"
    and nf: "controller s \<noteq> C_Returned"
  shows "\<exists>a. a \<noteq> Stop \<and> act n r a s \<noteq> None"
proof -
  have sz: "sizes n s" and ph: "phase_inv n s"
    and fa: "controller s \<noteq> C_Fault"
    using i r by (simp_all add: inv_def)
  have cast: "static_cast_int (int n) = int n"
    using n by (simp add: static_cast_int_id)
  have len: "length (workers s) = n" using sz by (simp add: sizes_def)
  have ctrl: "controller_step n r s \<noteq> None \<Longrightarrow> ?thesis"
    by (rule exI [of _ Controller]) (simp add: act_def)
  have wrk: "worker_step t s \<noteq> None \<Longrightarrow> ?thesis" for t
    by (rule exI [of _ "Worker t"]) (simp add: act_def)
  show ?thesis
  proof (cases "controller s")
    case C_WaitForData
    show ?thesis
    proof (cases "processed s = int n")
      case True
      then show ?thesis using C_WaitForData cast
        by (intro ctrl) (simp add: controller_step_def WaitForData_def)
    next
      case False
      then have "done_count n s \<noteq> n" using ph C_WaitForData by (simp add: phase_inv_def)
      then have "\<exists>t<n. \<not> worker_done s t"
        using done_count_full [of n s] by blast
      then obtain t where t: "t < n" "\<not> worker_done s t" by blast
      have "wakeup s ! t \<longrightarrow> workers s ! t = W_WaitForWork"
        using ph C_WaitForData t by (simp add: phase_inv_def)
      then have "workers s ! t = W_WaitForWork \<and> wakeup s ! t \<or>
          workers s ! t = W_CheckSimulate \<or> workers s ! t = W_Work \<or>
          workers s ! t = W_Signal \<or> workers s ! t = W_SignalExit"
        using t by (cases "workers s ! t") (auto simp: worker_done_def)
      then have "worker_step t s \<noteq> None"
        using t len by (intro worker_enabled) simp_all
      then show ?thesis by (rule wrk)
    qed
  next
    case (C_Join k)
    show ?thesis
    proof (cases "k < n \<and> workers s ! k \<noteq> W_Exited")
      case True
      have "joining s k" using ph C_Join True by (simp add: phase_inv_def)
      then have "workers s ! k = W_WaitForWork \<and> wakeup s ! k \<or>
          workers s ! k = W_CheckSimulate \<or> workers s ! k = W_Work \<or>
          workers s ! k = W_Signal \<or> workers s ! k = W_SignalExit"
        using True by (auto simp: joining_def split: if_splits)
      then have "worker_step k s \<noteq> None"
        using True len by (intro worker_enabled) simp_all
      then show ?thesis by (rule wrk)
    next
      case False
      then show ?thesis using C_Join len
        by (intro ctrl) (auto simp: controller_step_def)
    qed
  next
    case C_SwapExtract
    then show ?thesis
      by (intro ctrl) (simp add: controller_step_def split: sum.splits)
  next
    case C_WakeUp
    then show ?thesis by (intro ctrl) (simp add: controller_step_def)
  next
    case C_CheckSimulate
    then show ?thesis by (intro ctrl) (simp add: controller_step_def)
  next
    case C_FinalWakeUp
    then show ?thesis by (intro ctrl) (simp add: controller_step_def)
  next
    case C_Returned
    then show ?thesis using nf by simp
  next
    case C_Fault
    then show ?thesis using fa by simp
  qed
qed

lemma sum_list_rank_update:
  "t < length ps \<Longrightarrow> worker_rank p < worker_rank (ps ! t) \<Longrightarrow>
   sum_list (map worker_rank (ps[t := p])) < sum_list (map worker_rank ps)"
proof (induction ps arbitrary: t)
  case Nil
  then show ?case by simp
next
  case (Cons q ps)
  then show ?case by (cases t) auto
qed

subsection \<open>The barrier: termination once the flag is cleared\<close>

lemma potential_worker:
  assumes "\<not> simulate s" "worker_step t s = Some s'"
  shows "\<not> simulate s' \<and> potential n s' < potential n s"
proof -
  have t: "t < length (workers s)" using assms by (auto simp: worker_step_def split: if_splits)
  obtain p where p: "workers s' = (workers s)[t := p]" "worker_rank p < worker_rank (workers s ! t)"
    "controller s' = controller s" "simulate s' = simulate s"
    using assms
    by (auto simp: worker_step_def WaitForWork_def SignalMoreData_def worker_rank_def
        split: if_splits worker_pc.splits option.splits)
  show ?thesis
    using assms(1) p sum_list_rank_update [OF t p(2)] by (simp add: potential_def)
qed

lemma potential_controller:
  assumes "\<not> simulate s" "controller_step n r s = Some s'"
  shows "\<not> simulate s' \<and> potential n s' < potential n s"
  using assms
  by (auto simp: controller_step_def potential_def controller_rank_def WaitForData_def
      split: controller_pc.splits if_splits sum.splits)

lemma potential_act:
  assumes "\<not> simulate s" "act n r a s = Some s'"
  shows "\<not> simulate s' \<and> potential n s' < potential n s"
proof (cases a)
  case Controller
  then show ?thesis using assms potential_controller [of s n r s'] by (simp add: act_def)
next
  case (Worker t)
  then show ?thesis using assms potential_worker [of s t s' n] by (simp add: act_def)
next
  case Stop
  then show ?thesis using assms by (simp add: act_def)
qed

lemma potential_run:
  "\<not> simulate s \<Longrightarrow> run n r as s = Some s' \<Longrightarrow>
   \<not> simulate s' \<and> potential n s' + length as \<le> potential n s"
proof (induction as arbitrary: s)
  case Nil
  then show ?case by simp
next
  case (Cons a as)
  from Cons.prems obtain s1 where a: "act n r a s = Some s1" and r: "run n r as s1 = Some s'"
    by (auto split: option.splits)
  have 1: "\<not> simulate s1" "potential n s1 < potential n s"
    using potential_act [OF Cons.prems(1) a] by simp_all
  have "\<not> simulate s' \<and> potential n s' + length as \<le> potential n s1"
    using Cons.IH [OF 1(1) r] .
  then show ?case using 1 by simp
qed

lemma worker_rank_le: "worker_rank p \<le> 5"
  by (cases p) (simp_all add: worker_rank_def)

lemma potential_bound: "potential n s \<le> 5 * length (workers s) + n + 7"
proof -
  have "sum_list (map worker_rank ps) \<le> 5 * length ps" for ps
  proof (induction ps)
    case Nil
    then show ?case by simp
  next
    case (Cons p ps)
    then show ?case using worker_rank_le [of p] by simp
  qed
  then have "sum_list (map worker_rank (workers s)) \<le> 5 * length (workers s)" .
  moreover have "controller_rank n (controller s) \<le> n + 7"
    by (cases "controller s") (simp_all add: controller_rank_def)
  ultimately show ?thesis
    by (simp add: potential_def)
qed

lemma can_finish:
  assumes n: "int n < 2147483648" and r: "r \<noteq> 0"
  shows "inv n r s \<Longrightarrow> \<not> simulate s \<Longrightarrow> \<exists>as s'. run n r as s = Some s' \<and> finished s'"
proof (induction "potential n s" arbitrary: s rule: less_induct)
  case less
  show ?case
  proof (cases "controller s = C_Returned")
    case True
    then have "finished s" using less.prems by (simp add: finished_iff)
    then have "run n r [] s = Some s \<and> finished s" by simp
    then show ?thesis by blast
  next
    case False
    then obtain a s1 where a: "act n r a s = Some s1"
      using progress [OF less.prems(1) n r] by auto
    have 1: "\<not> simulate s1" "potential n s1 < potential n s"
      using potential_act [OF less.prems(2) a] by simp_all
    have "inv n r s1" using inv_act [OF less.prems(1) n a] .
    then obtain as s' where "run n r as s1 = Some s'" "finished s'"
      using less.hyps [OF 1(2) _ 1(1)] by blast
    then have "run n r (a # as) s = Some s' \<and> finished s'" using a by simp
    then show ?thesis by blast
  qed
qed

lemma wakes_worker: "worker_step t s = Some s' \<Longrightarrow> wakes s' = wakes s"
  by (auto simp: worker_step_def WaitForWork_def SignalMoreData_def
      split: if_splits worker_pc.splits option.splits)

lemma wakes_act:
  assumes "\<not> simulate s" "act n r a s = Some s'"
  shows "wakes s' + wake_budget (controller s') \<le> wakes s + wake_budget (controller s)"
proof (cases a)
  case Controller
  then show ?thesis using assms
    by (auto simp: act_def controller_step_def wake_budget_def WaitForData_def
        split: controller_pc.splits if_splits sum.splits)
next
  case (Worker t)
  then show ?thesis using assms wakes_worker [of t s s'] ctrl_worker [of t s s']
    by (simp add: act_def)
next
  case Stop
  then show ?thesis using assms by (simp add: act_def)
qed

lemma wakes_run:
  "\<not> simulate s \<Longrightarrow> run n r as s = Some s' \<Longrightarrow>
   wakes s' + wake_budget (controller s') \<le> wakes s + wake_budget (controller s)"
proof (induction as arbitrary: s)
  case Nil
  then show ?case by simp
next
  case (Cons a as)
  from Cons.prems obtain s1 where a: "act n r a s = Some s1" and r: "run n r as s1 = Some s'"
    by (auto split: option.splits)
  have 1: "\<not> simulate s1" using potential_act [OF Cons.prems(1) a] by simp
  show ?case using Cons.IH [OF 1 r] wakes_act [OF Cons.prems(1) a] by simp
qed

lemma wake_budget_le: "wake_budget pc \<le> 2"
  by (cases pc) (simp_all add: wake_budget_def)

lemma leaving_worker:
  assumes "\<not> simulate s" "sizes n s" "t < n" "leaving s t" "worker_step u s = Some s'"
  shows "leaving s' t \<and> passes s' ! t = passes s ! t \<and> woken s' ! t = woken s ! t \<and>
         signals_due s' t = signals_due s t"
  using assms
  by (cases "u = t")
    (auto simp: worker_step_def sizes_def leaving_def signals_due_def WaitForWork_def
      SignalMoreData_def bump_def split: if_splits worker_pc.splits option.splits)

lemma leaving_controller:
  assumes "controller_step n r s = Some s'"
  shows "workers s' = workers s \<and> passes s' = passes s \<and> woken s' = woken s \<and>
         signalled s' = signalled s"
  using assms
  by (auto simp: controller_step_def WaitForData_def
      split: controller_pc.splits if_splits sum.splits)

lemma leaving_act:
  assumes "\<not> simulate s" "sizes n s" "t < n" "leaving s t" "act n r a s = Some s'"
  shows "leaving s' t \<and> passes s' ! t = passes s ! t \<and> woken s' ! t = woken s ! t \<and>
         signals_due s' t = signals_due s t"
proof (cases a)
  case Controller
  then show ?thesis using assms leaving_controller [of n r s s']
    by (simp add: act_def leaving_def signals_due_def)
next
  case (Worker u)
  then show ?thesis using assms leaving_worker [of s n t u s'] by (simp add: act_def)
next
  case Stop
  then show ?thesis using assms by (simp add: act_def)
qed

lemma leaving_run:
  "\<not> simulate s \<Longrightarrow> inv n r s \<Longrightarrow> int n < 2147483648 \<Longrightarrow> t < n \<Longrightarrow> leaving s t \<Longrightarrow>
   run n r as s = Some s' \<Longrightarrow>
   leaving s' t \<and> passes s' ! t = passes s ! t \<and> woken s' ! t = woken s ! t \<and>
   signals_due s' t = signals_due s t"
proof (induction as arbitrary: s)
  case Nil
  then show ?case by simp
next
  case (Cons a as)
  from Cons.prems obtain s1 where a: "act n r a s = Some s1" and r: "run n r as s1 = Some s'"
    by (auto split: option.splits)
  have sz: "sizes n s" using Cons.prems(2) by (simp add: inv_def)
  have 1: "\<not> simulate s1" using potential_act [OF Cons.prems(1) a] by simp
  have 2: "inv n r s1" using inv_act [OF Cons.prems(2,3) a] .
  have 3: "leaving s1 t \<and> passes s1 ! t = passes s ! t \<and> woken s1 ! t = woken s ! t \<and>
         signals_due s1 t = signals_due s t"
    using leaving_act [OF Cons.prems(1) sz Cons.prems(4,5) a] .
  then have "leaving s1 t" by simp
  from Cons.IH [OF 1 2 Cons.prems(3,4) this r] 3 show ?case by simp
qed

subsection \<open>The calls of the controller after the barrier\<close>

lemma calls_worker: "worker_step t s = Some s' \<Longrightarrow> calls s' = calls s \<and> step s' = step s"
  by (auto simp: worker_step_def WaitForWork_def SignalMoreData_def
      split: if_splits worker_pc.splits option.splits)

lemma steps_done_Suc: "steps_done (Suc m) = steps_done m @ [m mod 4294967296]"
  by (simp add: steps_done_def)

lemma cadence_controller:
  assumes c: "cadence_inv r s" and st: "controller_step n r s = Some s'"
  shows "cadence_inv r s'"
proof (cases "controller s = C_SwapExtract")
  case True
  from c True obtain m where m: "step s = m mod 4294967296"
    "calls s = concat (map (tail_calls r) (steps_done m))"
    by (auto simp: cadence_inv_def fault_calls_def)
  show ?thesis
  proof (cases "extraction_due (step s) r")
    case (Inl e)
    then have "s' = s\<lparr>controller := C_Fault, calls := calls s @ [(step s, Call_swap)]\<rparr>"
      using st True by (simp add: controller_step_def)
    then show ?thesis using m by (auto simp: cadence_inv_def fault_calls_def)
  next
    case (Inr due)
    then have s': "s' = s\<lparr>step := (step s + 1) mod 4294967296, controller := C_WakeUp,
        calls := calls s @ (step s, Call_swap) #
                 (if due then [(step s, Call_GetResults)] else [])\<rparr>"
      using st True by (simp add: controller_step_def)
    have due: "due = (step s > 2000 \<and> step s mod r = 0)"
      using Inr by (auto simp: extraction_due_def split: if_splits)
    have 1: "step s' = Suc m mod 4294967296"
      using m by (simp add: s' mod_Suc_eq)
    have 2: "calls s' = concat (map (tail_calls r) (steps_done (Suc m)))"
      using m due by (simp add: s' steps_done_Suc tail_calls_def)
    have 3: "controller s' \<noteq> C_Fault" by (simp add: s')
    show ?thesis
      unfolding cadence_inv_def using 1 2 3
      by (intro exI [of _ "Suc m"]) (simp add: fault_calls_def)
  qed
next
  case False
  then have "calls s' = calls s \<and> step s' = step s \<and>
      (controller s' = C_Fault \<longleftrightarrow> controller s = C_Fault)"
    using st
    by (auto simp: controller_step_def WaitForData_def
        split: controller_pc.splits if_splits)
  then have "calls s' = calls s \<and> step s' = step s \<and> fault_calls s' = fault_calls s"
    by (simp add: fault_calls_def)
  then show ?thesis using c by (simp add: cadence_inv_def)
qed

lemma cadence_act:
  assumes "cadence_inv r s" "act n r a s = Some s'"
  shows "cadence_inv r s'"
proof (cases a)
  case Controller
  then show ?thesis using assms cadence_controller [of r s n s'] by (simp add: act_def)
next
  case (Worker t)
  then have "calls s' = calls s \<and> step s' = step s \<and> fault_calls s' = fault_calls s"
    using assms calls_worker [of t s s'] ctrl_worker [of t s s']
    by (simp add: act_def fault_calls_def)
  then show ?thesis using assms by (simp add: cadence_inv_def)
next
  case Stop
  then have "calls s' = calls s \<and> step s' = step s \<and> fault_calls s' = fault_calls s"
    using assms by (auto simp: act_def fault_calls_def split: if_splits)
  then show ?thesis using assms by (simp add: cadence_inv_def)
qed

lemma cadence_run:
  "cadence_inv r s \<Longrightarrow> run n r as s = Some s' \<Longrightarrow> cadence_inv r s'"
proof (induction as arbitrary: s)
  case Nil
  then show ?case by simp
next
  case (Cons a as)
  from Cons.prems obtain s1 where a: "act n r a s = Some s1" and r: "run n r as s1 = Some s'"
    by (auto split: option.splits)
  show ?case using Cons.IH [OF cadence_act [OF Cons.prems(1) a] r] .
qed

lemma cadence_start: "Simulate_start n c sim = Inr s0 \<Longrightarrow> cadence_inv r s0"
  by (auto simp: Simulate_start_def cadence_inv_def steps_done_def fault_calls_def
      split: sum.splits intro!: exI [of _ 0])

lemma fault_act:
  assumes "fault_inv r s" "act n r a s = Some s'"
  shows "fault_inv r s'"
proof (cases a)
  case Controller
  then show ?thesis using assms
    by (auto simp: act_def fault_inv_def controller_step_def WaitForData_def
        extraction_due_def split: controller_pc.splits if_splits sum.splits)
next
  case (Worker t)
  then show ?thesis using assms calls_worker [of t s s'] ctrl_worker [of t s s']
    by (simp add: act_def fault_inv_def)
next
  case Stop
  then show ?thesis using assms by (auto simp: act_def fault_inv_def split: if_splits)
qed

lemma fault_run:
  "fault_inv r s \<Longrightarrow> run n r as s = Some s' \<Longrightarrow> fault_inv r s'"
proof (induction as arbitrary: s)
  case Nil
  then show ?case by simp
next
  case (Cons a as)
  from Cons.prems obtain s1 where a: "act n r a s = Some s1" and r: "run n r as s1 = Some s'"
    by (auto split: option.splits)
  show ?case using Cons.IH [OF fault_act [OF Cons.prems(1) a] r] .
qed

lemma GetResults_in_tail_calls:
  "(k, Call_GetResults) \<in> set (concat (map (tail_calls r) ks)) \<longleftrightarrow>
   k \<in> set ks \<and> 2000 < k \<and> k mod r = 0"
  by (induction ks) (auto simp: tail_calls_def)

lemma swap_in_tail_calls:
  "(k, Call_swap) \<in> set (concat (map (tail_calls r) ks)) \<longleftrightarrow> k \<in> set ks"
  by (induction ks) (auto simp: tail_calls_def)

lemma run_append:
  "run n r (as @ bs) s = (case run n r as s of None \<Rightarrow> None | Some s' \<Rightarrow> run n r bs s')"
  by (induction as arbitrary: s) (auto split: option.splits)

section \<open>The claims\<close>

subsection \<open>C1: the barrier protocol\<close>

text \<open>
  Claim C1. In every state that the threads of Simulate can reach, for every thread
  count from 1 that fits an \<^verbatim>\<open>int\<close>: WakeUp sets the wake flag of every worker;
  WaitForWork of worker \<open>t\<close> returns exactly when \<^verbatim>\<open>wakeup[t]\<close> is true, and on
  return has cleared that flag and no other; WaitForData returns exactly when
  \<^verbatim>\<open>processed\<close> equals the thread count, and on return \<^verbatim>\<open>processed\<close> is 0. Each
  wake-up of a worker is consumed once: the returns of its WaitForWork plus a pending
  flag equal the calls of WakeUp; the controller calls WakeUp only when no flag is
  pending; and when WaitForData has returned every worker has consumed the wake-up of
  the cycle.
\<close>

theorem barrier_protocol:
  assumes start: "Simulate_start n c sim = Inr s0"
    and n: "int n < 2147483648"
    and reach: "run n r as s0 = Some s"
  shows "1 \<le> n \<and> length (wakeup (WakeUp s)) = n \<and> (\<forall>t<n. wakeup (WakeUp s) ! t) \<and>
    (\<forall>t<n. case WaitForWork t s of
              None \<Rightarrow> \<not> wakeup s ! t
            | Some s' \<Rightarrow> wakeup s ! t \<and> \<not> wakeup s' ! t \<and>
                        (\<forall>u<n. u \<noteq> t \<longrightarrow> wakeup s' ! u = wakeup s ! u)) \<and>
    (case WaitForData n s of
       None \<Rightarrow> processed s \<noteq> int n
     | Some s' \<Rightarrow> processed s = int n \<and> processed s' = 0) \<and>
    (\<forall>t<n. woken s ! t + (if wakeup s ! t then 1 else 0) = wakes s) \<and>
    (controller s = C_WakeUp \<or> controller s = C_FinalWakeUp \<longrightarrow> (\<forall>t<n. \<not> wakeup s ! t)) \<and>
    (controller s = C_CheckSimulate \<longrightarrow>
       processed s = 0 \<and> (\<forall>t<n. \<not> wakeup s ! t \<and> woken s ! t = wakes s))"
proof -
  have i: "inv n r s" using inv_reachable [OF start n reach] .
  then have sz: "sizes n s" and ph: "phase_inv n s" and wk: "wake_inv n s"
    by (simp_all add: inv_def)
  have cast: "static_cast_int (int n) = int n"
    using n by (simp add: static_cast_int_id)
  have 1: "1 \<le> n" using Simulate_start_state(1) [OF start n] by simp
  have 2: "length (wakeup (WakeUp s)) = n" "\<forall>t<n. wakeup (WakeUp s) ! t"
    using sz by (simp_all add: sizes_def)
  have 3: "\<forall>t<n. case WaitForWork t s of
              None \<Rightarrow> \<not> wakeup s ! t
            | Some s' \<Rightarrow> wakeup s ! t \<and> \<not> wakeup s' ! t \<and>
                        (\<forall>u<n. u \<noteq> t \<longrightarrow> wakeup s' ! u = wakeup s ! u)"
    using sz by (simp add: WaitForWork_def sizes_def)
  have 4: "case WaitForData n s of
       None \<Rightarrow> processed s \<noteq> int n
     | Some s' \<Rightarrow> processed s = int n \<and> processed s' = 0"
    by (simp add: WaitForData_def cast)
  have 5: "\<forall>t<n. woken s ! t + (if wakeup s ! t then 1 else 0) = wakes s"
    using wk by (simp add: wake_inv_def)
  have 6: "controller s = C_WakeUp \<or> controller s = C_FinalWakeUp \<longrightarrow> (\<forall>t<n. \<not> wakeup s ! t)"
    using ph by (auto simp: phase_inv_def worker_done_def)
  have 7: "controller s = C_CheckSimulate \<longrightarrow>
       processed s = 0 \<and> (\<forall>t<n. \<not> wakeup s ! t \<and> woken s ! t = wakes s)"
    using ph wk by (auto simp: phase_inv_def worker_done_def wake_inv_def)
  show ?thesis using 1 2 3 4 5 6 7 by blast
qed

theorem barrier_protocol_witness:
  "Simulate_start 2 4 True = Inr demo_start \<and> int 2 < 2147483648 \<and>
   run 2 10 [Controller, Worker 0] demo_start = Some demo_woken \<and>
   wakeup (WakeUp demo_woken) = [True, True] \<and>
   WaitForWork 0 demo_woken = None \<and>
   WaitForWork 1 demo_woken = Some (demo_woken\<lparr>wakeup := [False, False]\<rparr>) \<and>
   WaitForData 2 demo_woken = None \<and>
   woken demo_woken = [1, 0] \<and> wakeup demo_woken = [False, True] \<and> wakes demo_woken = 1"
proof -
  have 1: "Simulate_start 2 4 True = Inr demo_start" by code_simp
  have 2: "int 2 < 2147483648" by simp
  have 3: "run 2 10 [Controller, Worker 0] demo_start = Some demo_woken" by code_simp
  have 4: "wakeup (WakeUp demo_woken) = [True, True]" by code_simp
  have 5: "WaitForWork 1 demo_woken = Some (demo_woken\<lparr>wakeup := [False, False]\<rparr>)" by code_simp
  from barrier_protocol [OF 1 2 3] 1 2 3 4 5 show ?thesis
    by (simp add: demo_woken_def WaitForWork_def WaitForData_def static_cast_int_def)
qed

subsection \<open>C2: shutdown\<close>

text \<open>
  Claim C2. Let \<^verbatim>\<open>simulate\<close> be false in a reachable state (thread count within
  \<^verbatim>\<open>int\<close>, non-zero \<^verbatim>\<open>refreshSteps\<close>). Then in every continuation the flag stays
  false; the continuation has at most \<open>6 n + 7\<close> actions; it either has reached the
  state where Simulate has returned and all workers have ended, or some thread can act
  (no deadlock), and it can be extended to that final state; the controller calls WakeUp
  at most twice more (one cycle of the loop and the wake-up after it); and a worker that
  has returned from WaitForWork and stands at the test of \<^verbatim>\<open>simulate\<close> makes no pass,
  returns from no further WaitForWork, and calls SignalMoreData once, on its way to the
  end of its thread. The controller joins them all: when the join loop stands at thread
  \<open>k\<close> the threads before \<open>k\<close> have ended, and when Simulate has returned every
  worker thread has ended.
\<close>

theorem shutdown_terminates:
  assumes start: "Simulate_start n c sim = Inr s0"
    and n: "int n < 2147483648"
    and r: "r \<noteq> 0"
    and reach: "run n r as s0 = Some s"
    and stopped: "\<not> simulate s"
    and cont: "run n r bs s = Some s'"
  shows "\<not> simulate s' \<and> length bs \<le> 6 * n + 7 \<and>
    (finished s' \<or> (\<exists>a. act n r a s' \<noteq> None)) \<and>
    (\<exists>cs s''. run n r cs s' = Some s'' \<and> finished s'') \<and>
    wakes s' \<le> wakes s + 2 \<and>
    (\<forall>t<n. workers s ! t = W_CheckSimulate \<longrightarrow>
       (workers s' ! t = W_CheckSimulate \<or> workers s' ! t = W_SignalExit \<or>
        workers s' ! t = W_Exited) \<and>
       passes s' ! t = passes s ! t \<and> woken s' ! t = woken s ! t \<and>
       signalled s' ! t = signalled s ! t + (if workers s' ! t = W_Exited then 1 else 0)) \<and>
    (controller s' = C_Returned \<longrightarrow> (\<forall>t<n. workers s' ! t = W_Exited)) \<and>
    (\<forall>k. controller s' = C_Join k \<longrightarrow> k \<le> n \<and> (\<forall>t<k. workers s' ! t = W_Exited)) \<and>
    length (workers s') = n"
proof -
  have i: "inv n r s" using inv_reachable [OF start n reach] .
  have i': "inv n r s'" using inv_run [OF i n cont] .
  have p: "\<not> simulate s'" "potential n s' + length bs \<le> potential n s"
    using potential_run [OF stopped cont] by simp_all
  have "length (workers s) = n" using i by (simp add: inv_def sizes_def)
  then have "potential n s \<le> 6 * n + 7" using potential_bound [of n s] by simp
  then have 2: "length bs \<le> 6 * n + 7" using p(2) by simp
  have 3: "finished s' \<or> (\<exists>a. act n r a s' \<noteq> None)"
    using progress [OF i' n r] finished_iff [OF i'] by blast
  have 4: "\<exists>cs s''. run n r cs s' = Some s'' \<and> finished s''"
    using can_finish [OF n r i' p(1)] .
  have 5: "wakes s' \<le> wakes s + 2"
    using wakes_run [OF stopped cont] wake_budget_le [of "controller s"] by simp
  have 6: "\<forall>t<n. workers s ! t = W_CheckSimulate \<longrightarrow>
       (workers s' ! t = W_CheckSimulate \<or> workers s' ! t = W_SignalExit \<or>
        workers s' ! t = W_Exited) \<and>
       passes s' ! t = passes s ! t \<and> woken s' ! t = woken s ! t \<and>
       signalled s' ! t = signalled s ! t + (if workers s' ! t = W_Exited then 1 else 0)"
  proof (intro allI impI)
    fix t assume t: "t < n" and c: "workers s ! t = W_CheckSimulate"
    then have l: "leaving s t" by (simp add: leaving_def)
    have "leaving s' t \<and> passes s' ! t = passes s ! t \<and> woken s' ! t = woken s ! t \<and>
       signals_due s' t = signals_due s t"
      using leaving_run [OF stopped i n t l cont] .
    then show "(workers s' ! t = W_CheckSimulate \<or> workers s' ! t = W_SignalExit \<or>
        workers s' ! t = W_Exited) \<and>
       passes s' ! t = passes s ! t \<and> woken s' ! t = woken s ! t \<and>
       signalled s' ! t = signalled s ! t + (if workers s' ! t = W_Exited then 1 else 0)"
      using c by (auto simp: leaving_def signals_due_def split: if_splits)
  qed
  have ph: "phase_inv n s'" using i' by (simp add: inv_def)
  have 7: "controller s' = C_Returned \<longrightarrow> (\<forall>t<n. workers s' ! t = W_Exited)"
    using ph by (auto simp: phase_inv_def)
  have 8: "\<forall>k. controller s' = C_Join k \<longrightarrow> k \<le> n \<and> (\<forall>t<k. workers s' ! t = W_Exited)"
    using ph by (auto simp: phase_inv_def)
  have 9: "length (workers s') = n"
    using i' by (simp add: inv_def sizes_def)
  show ?thesis using p(1) 2 3 4 5 6 7 8 9 by blast
qed

theorem shutdown_terminates_witness:
  "Simulate_start 2 4 True = Inr demo_start \<and> int 2 < 2147483648 \<and> (10::nat) \<noteq> 0 \<and>
   run 2 10 [Controller, Worker 0, Stop] demo_start = Some demo_stopped \<and>
   \<not> simulate demo_stopped \<and>
   run 2 10 [Worker 0, Worker 0, Worker 1, Worker 1, Worker 1,
     Controller, Controller, Controller, Controller, Controller, Controller] demo_stopped
     = Some demo_finished \<and>
   finished demo_finished \<and> workers demo_stopped ! 0 = W_CheckSimulate \<and>
   passes demo_finished ! 0 = passes demo_stopped ! 0 \<and>
   signalled demo_finished ! 0 = signalled demo_stopped ! 0 + 1 \<and>
   wakes demo_finished \<le> wakes demo_stopped + 2 \<and>
   controller demo_finished = C_Returned \<and> workers demo_finished = [W_Exited, W_Exited]"
proof -
  have 1: "Simulate_start 2 4 True = Inr demo_start" by code_simp
  have 2: "int 2 < 2147483648" by simp
  have 3: "(10::nat) \<noteq> 0" by simp
  have 4: "run 2 10 [Controller, Worker 0, Stop] demo_start = Some demo_stopped" by code_simp
  have 5: "\<not> simulate demo_stopped" by (simp add: demo_stopped_def)
  have 6: "run 2 10 [Worker 0, Worker 0, Worker 1, Worker 1, Worker 1,
     Controller, Controller, Controller, Controller, Controller, Controller] demo_stopped
     = Some demo_finished" by code_simp
  have 7: "finished demo_finished" by code_simp
  have 8: "workers demo_stopped ! 0 = W_CheckSimulate" 
    by (simp add: demo_stopped_def demo_woken_def)
  have 9: "workers demo_finished ! 0 = W_Exited" by (simp add: demo_finished_def)
  have 10: "controller demo_finished = C_Returned" "workers demo_finished = [W_Exited, W_Exited]"
    by (simp_all add: demo_finished_def)
  from shutdown_terminates [OF 1 2 3 4 5 6] 1 2 3 4 5 6 7 8 9 10 show ?thesis
    by simp
qed

subsection \<open>C3: work partitioning\<close>

text \<open>
  Claim C3. For \<open>n \<ge> 1\<close> threads and \<open>c \<ge> 0\<close> columns (both within \<^verbatim>\<open>int\<close>)
  Simulate starts \<open>n\<close> threads; thread \<open>t < n - 1\<close> gets the columns
  \<open>[t * (c div n), (t + 1) * (c div n))\<close> and thread \<open>n - 1\<close> gets
  \<open>[(n - 1) * (c div n), c)\<close>. The ranges are contiguous, pairwise disjoint, and their
  union is \<open>[0, c)\<close>.
\<close>

theorem work_partitioning:
  assumes "1 \<le> n" "int n < 2147483648" "int c < 2147483648"
  shows "\<exists>ths. Simulate_threads n c = Inr ths \<and> length ths = n \<and>
     (\<forall>t<n. tid (ths ! t) = int t \<and>
            startCol (ths ! t) = int t * int (c div n) \<and>
            endCol (ths ! t) = (if t = n - 1 then int c else (int t + 1) * int (c div n)) \<and>
            startCol (ths ! t) \<le> endCol (ths ! t)) \<and>
     startCol (ths ! 0) = 0 \<and> endCol (ths ! (n - 1)) = int c \<and>
     (\<forall>t. Suc t < n \<longrightarrow> endCol (ths ! t) = startCol (ths ! Suc t)) \<and>
     (\<forall>t<n. \<forall>u<n. t \<noteq> u \<longrightarrow> col_range (ths ! t) \<inter> col_range (ths ! u) = {}) \<and>
     (\<Union>t<n. col_range (ths ! t)) = {0 ..< int c}"
proof -
  define ths where "ths = map (\<lambda>k. \<lparr>tid = k, startCol = k * int (c div n),
               endCol = (if k = int n - 1 then int c else (k + 1) * int (c div n))\<rparr>)
       [0 .. int n - 1]"
  have run: "Simulate_threads n c = Inr ths"
    using assms by (simp add: Simulate_threads_closed ths_def)
  have len: "length ths = n"
    using assms by (simp add: ths_def)
  have nth: "ths ! t = \<lparr>tid = int t, startCol = breakpoint n c t, endCol = breakpoint n c (Suc t)\<rparr>"
    if "t < n" for t
    using that assms by (auto simp: ths_def breakpoint_def algebra_simps)
  have mono: "\<forall>k<n. breakpoint n c k \<le> breakpoint n c (Suc k)"
    using assms by (simp add: breakpoint_mono)
  have rng: "col_range (ths ! t) = {breakpoint n c t ..< breakpoint n c (Suc t)}" if "t < n" for t
    using that by (simp add: nth col_range_def)
  have p1: "\<forall>t<n. tid (ths ! t) = int t \<and>
            startCol (ths ! t) = int t * int (c div n) \<and>
            endCol (ths ! t) = (if t = n - 1 then int c else (int t + 1) * int (c div n)) \<and>
            startCol (ths ! t) \<le> endCol (ths ! t)"
  proof (intro allI impI)
    fix t assume t: "t < n"
    have "breakpoint n c t \<le> breakpoint n c (Suc t)" using mono t by simp
    then show "tid (ths ! t) = int t \<and>
            startCol (ths ! t) = int t * int (c div n) \<and>
            endCol (ths ! t) = (if t = n - 1 then int c else (int t + 1) * int (c div n)) \<and>
            startCol (ths ! t) \<le> endCol (ths ! t)"
      using t by (auto simp: nth breakpoint_def algebra_simps)
  qed
  have p2: "startCol (ths ! 0) = 0" "endCol (ths ! (n - 1)) = int c"
    using assms by (simp_all add: nth breakpoint_def)
  have p3: "\<forall>t. Suc t < n \<longrightarrow> endCol (ths ! t) = startCol (ths ! Suc t)"
    by (simp add: nth)
  have p4: "\<forall>t<n. \<forall>u<n. t \<noteq> u \<longrightarrow> col_range (ths ! t) \<inter> col_range (ths ! u) = {}"
    using disjoint_intervals [OF mono] by (simp add: rng)
  have "(\<Union>t<n. col_range (ths ! t)) = (\<Union>t<n. {breakpoint n c t ..< breakpoint n c (Suc t)})"
    by (simp add: rng)
  also have "\<dots> = {breakpoint n c 0 ..< breakpoint n c n}"
    using union_intervals [OF mono] .
  finally have p5: "(\<Union>t<n. col_range (ths ! t)) = {0 ..< int c}"
    using assms by (simp add: breakpoint_def)
  show ?thesis
    using run len p1 p2 p3 p4 p5 by blast
qed

theorem work_partitioning_witness:
  "(1::nat) \<le> 3 \<and> int 3 < 2147483648 \<and> int 10 < 2147483648 \<and>
   Simulate_threads 3 10 =
     Inr [\<lparr>tid = 0, startCol = 0, endCol = 3\<rparr>, \<lparr>tid = 1, startCol = 3, endCol = 6\<rparr>,
          \<lparr>tid = 2, startCol = 6, endCol = 10\<rparr>] \<and>
   (\<Union>t<3. col_range ([\<lparr>tid = 0, startCol = 0, endCol = 3\<rparr>, \<lparr>tid = 1, startCol = 3, endCol = 6\<rparr>,
          \<lparr>tid = 2, startCol = 6, endCol = 10\<rparr>] ! t)) = {0 ..< int 10}"
proof -
  have h: "(1::nat) \<le> 3" "int 3 < 2147483648" "int 10 < 2147483648" by simp_all
  have run: "Simulate_threads 3 10 =
     Inr [\<lparr>tid = 0, startCol = 0, endCol = 3\<rparr>, \<lparr>tid = 1, startCol = 3, endCol = 6\<rparr>,
          \<lparr>tid = 2, startCol = 6, endCol = 10\<rparr>]"
    by (simp add: Simulate_threads_def static_cast_int_def spawn_loop.simps)
  from work_partitioning [OF h] run show ?thesis
    by auto
qed

subsection \<open>C4: vorticity extraction\<close>



subsection \<open>C5: configuration errors\<close>

text \<open>
  Claim C5, as amended. Init and Simulate do not check the configuration. For every
  thread count from 1 that fits an \<^verbatim>\<open>int\<close>, whatever the obstacle mask and its column
  count, Simulate reports no error, runs Init and starts exactly that many workers; when
  the thread count exceeds the column count, the stride is 0, every worker but the last
  gets the empty range and the last gets all columns.
\<close>

theorem no_configuration_check:
  assumes "1 \<le> numThreads L" "int (numThreads L) < 2147483648"
    "int (cols (latticeObstacles L)) < 2147483648"
  shows "\<exists>S. Simulate_setup ops L = Inr S \<and> obj S = Init ops L \<and>
      length (threads S) = numThreads L \<and>
      (cols (latticeObstacles L) < numThreads L \<longrightarrow>
         (\<forall>t<numThreads L. col_range (threads S ! t) =
            (if t = numThreads L - 1 then {0 ..< int (cols (latticeObstacles L))} else {})))"
proof -
  define n where "n = numThreads L"
  define c where "c = cols (latticeObstacles L)"
  define ths where "ths = map (\<lambda>k. \<lparr>tid = k, startCol = k * int (c div n),
               endCol = (if k = int n - 1 then int c else (k + 1) * int (c div n))\<rparr>)
       [0 .. int n - 1]"
  have run: "Simulate_threads n c = Inr ths"
    using assms by (simp add: Simulate_threads_closed ths_def n_def c_def)
  have len: "length ths = n"
    using assms by (simp add: ths_def n_def)
  have su: "Simulate_setup ops L =
      Inr \<lparr>obj = Init ops L, latticeWork = CellLattice ops (rows (latticeObstacles L)) c,
           threads = ths\<rparr>"
    using run by (simp add: Simulate_setup_def Let_def Init_fields n_def c_def)
  have rng: "col_range (ths ! t) = (if t = n - 1 then {0 ..< int c} else {})"
    if "c < n" "t < n" for t
  proof -
    have "c div n = 0" using that by simp
    then show ?thesis
      using that by (auto simp: ths_def col_range_def)
  qed
  show ?thesis
    using su len rng by (simp add: n_def c_def)
qed

theorem no_configuration_check_witness:
  "1 \<le> numThreads demo_narrow \<and> int (numThreads demo_narrow) < 2147483648 \<and>
   int (cols (latticeObstacles demo_narrow)) < 2147483648 \<and>
   cols (latticeObstacles demo_narrow) < numThreads demo_narrow \<and>
   \<not> isl (Simulate_setup demo_ops demo_narrow) \<and>
   length (threads (projr (Simulate_setup demo_ops demo_narrow))) = 4 \<and>
   col_range (threads (projr (Simulate_setup demo_ops demo_narrow)) ! 0) = {} \<and>
   col_range (threads (projr (Simulate_setup demo_ops demo_narrow)) ! 3) = {0 ..< 2}"
proof -
  have h: "1 \<le> numThreads demo_narrow" "int (numThreads demo_narrow) < 2147483648"
    "int (cols (latticeObstacles demo_narrow)) < 2147483648"
    by (simp_all add: demo_narrow_def Constant_def)
  have n: "numThreads demo_narrow = 4" "cols (latticeObstacles demo_narrow) = 2"
    by (simp_all add: demo_narrow_def Constant_def)
  from no_configuration_check [OF h, of demo_ops]
  obtain S where S: "Simulate_setup demo_ops demo_narrow = Inr S" "length (threads S) = 4"
    "\<forall>t<4. col_range (threads S ! t) = (if t = 3 then {0 ..< 2} else {})"
    by (auto simp: n)
  have "col_range (threads S ! 0) = {}" "col_range (threads S ! 3) = {0 ..< 2}"
    using S(3) by simp_all
  then show ?thesis using h n S(1,2) by simp
qed

text \<open>
  The claim as stated fails: with four threads on two columns no error is reported and
  four threads are started.
\<close>

theorem configuration_counterexample:
  "cols (latticeObstacles demo_narrow) < numThreads demo_narrow \<and>
   \<not> isl (Simulate_setup demo_ops demo_narrow) \<and>
   map_sum id threads (Simulate_setup demo_ops demo_narrow) =
     Inr [\<lparr>tid = 0, startCol = 0, endCol = 0\<rparr>, \<lparr>tid = 1, startCol = 0, endCol = 0\<rparr>,
          \<lparr>tid = 2, startCol = 0, endCol = 0\<rparr>, \<lparr>tid = 3, startCol = 0, endCol = 2\<rparr>]"
  by (simp add: Simulate_setup_def Let_def Init_fields Simulate_threads_def demo_narrow_def
      Constant_def spawn_loop.simps static_cast_int_def)

subsection \<open>C6: the postcondition of Init\<close>

text \<open>
  Claim C6. After Init the lattice has the shape of the obstacle mask; a cell \<open>(i, j)\<close>
  has its 9 distribution values set to zero when the mask is true there or the boundary
  condition is not Periodic and \<open>i\<close> is the first or the last row, and otherwise is the
  constructed cell after \<^verbatim>\<open>Cell::Init()\<close>; the results matrix is the zero matrix of
  the shape of the mask. When \<^verbatim>\<open>Cell::Init()\<close> does not produce nine zeros, the cells
  with nine zeros are exactly the cells of the first kind.
\<close>

theorem Init_postcondition:
  "rows (lattice (Init ops L)) = rows (latticeObstacles L) \<and>
   cols (lattice (Init ops L)) = cols (latticeObstacles L) \<and>
   results (Init ops L) = Constant (rows (latticeObstacles L)) (cols (latticeObstacles L)) 0 \<and>
   (\<forall>i<rows (latticeObstacles L). \<forall>j<cols (latticeObstacles L).
      coeff (lattice (Init ops L)) i j =
        (if coeff (latticeObstacles L) i j \<or>
            (boundaryConditions L \<noteq> Periodic \<and> (i = 0 \<or> i = rows (latticeObstacles L) - 1))
         then (Cell_new ops)\<lparr>density := [0, 0, 0, 0, 0, 0, 0, 0, 0]\<rparr>
         else Cell_Init ops (Cell_new ops))) \<and>
   (density (Cell_Init ops (Cell_new ops)) \<noteq> [0, 0, 0, 0, 0, 0, 0, 0, 0] \<longrightarrow>
    (\<forall>i<rows (latticeObstacles L). \<forall>j<cols (latticeObstacles L).
       density (coeff (lattice (Init ops L)) i j) = [0, 0, 0, 0, 0, 0, 0, 0, 0] \<longleftrightarrow>
       coeff (latticeObstacles L) i j \<or>
       (boundaryConditions L \<noteq> Periodic \<and> (i = 0 \<or> i = rows (latticeObstacles L) - 1))))"
proof -
  have c: "coeff (lattice (Init ops L)) i j =
        (if coeff (latticeObstacles L) i j \<or>
            (boundaryConditions L \<noteq> Periodic \<and> (i = 0 \<or> i = rows (latticeObstacles L) - 1))
         then (Cell_new ops)\<lparr>density := [0, 0, 0, 0, 0, 0, 0, 0, 0]\<rparr>
         else Cell_Init ops (Cell_new ops))"
    if "i < rows (latticeObstacles L)" "j < cols (latticeObstacles L)" for i j
  proof -
    have "int i = int (rows (latticeObstacles L)) - 1 \<longleftrightarrow> i = rows (latticeObstacles L) - 1"
      using that by auto
    then show ?thesis
      using that by (auto simp: Init_coeff Init_value_def)
  qed
  show ?thesis
    by (simp add: Init_fields c)
qed

theorem Init_postcondition_witness:
  "density (Cell_Init demo_ops (Cell_new demo_ops)) \<noteq> [0, 0, 0, 0, 0, 0, 0, 0, 0] \<and>
   rows (latticeObstacles demo_narrow) = 3 \<and> cols (latticeObstacles demo_narrow) = 2 \<and>
   boundaryConditions demo_narrow = BounceBack \<and>
   density (coeff (lattice (Init demo_ops demo_narrow)) 0 1) = [0, 0, 0, 0, 0, 0, 0, 0, 0] \<and>
   density (coeff (lattice (Init demo_ops demo_narrow)) 1 1) = [16, 4, 4, 4, 4, 1, 1, 1, 1] \<and>
   density (coeff (lattice (Init demo_ops demo_narrow)) 2 0) = [0, 0, 0, 0, 0, 0, 0, 0, 0] \<and>
   results (Init demo_ops demo_narrow) = Constant 3 2 0"
proof -
  have h: "density (Cell_Init demo_ops (Cell_new demo_ops)) \<noteq> [0, 0, 0, 0, 0, 0, 0, 0, 0]"
    by (simp add: demo_ops_def)
  have d: "rows (latticeObstacles demo_narrow) = 3" "cols (latticeObstacles demo_narrow) = 2"
    "boundaryConditions demo_narrow = BounceBack"
    by (simp_all add: demo_narrow_def Constant_def)
  note p = Init_postcondition [of demo_ops demo_narrow]
  have c: "coeff (lattice (Init demo_ops demo_narrow)) i j =
        (if coeff (latticeObstacles demo_narrow) i j \<or> (i = 0 \<or> i = 2)
         then (Cell_new demo_ops)\<lparr>density := [0, 0, 0, 0, 0, 0, 0, 0, 0]\<rparr>
         else Cell_Init demo_ops (Cell_new demo_ops))" if "i < 3" "j < 2" for i j
    using p that by (simp add: d)
  have r: "results (Init demo_ops demo_narrow) = Constant 3 2 0"
    using p by (simp add: d)
  have o: "\<not> coeff (latticeObstacles demo_narrow) i j" for i j
    by (simp add: demo_narrow_def Constant_def)
  show ?thesis
    using h d r by (simp add: c o) (simp add: demo_ops_def)
qed

subsection \<open>C7: the kernel calls on edge rows and interior rows\<close>

text \<open>
  Claim C7. In the pass of a worker over its columns \<open>[s, e)\<close>, every kernel call lies
  in one of these columns; a call on row 0 or on the last row has the up/down collide
  flag equal to \<open>boundaryConditions = Periodic\<close>; a call on an interior row has the flag
  true; and every cell of the columns is called.
\<close>

theorem edge_row_dispatch:
  assumes "int (rows (lattice L)) < 2147483648"
  shows "(\<forall>c \<in> set (CollideAndStream_calls L s e).
      s \<le> cell_x c \<and> cell_x c < e \<and>
      (cell_y c = 0 \<or> cell_y c = int (rows (lattice L)) - 1 \<longrightarrow>
         collideUpDown c = (boundaryConditions L = Periodic)) \<and>
      (1 \<le> cell_y c \<and> cell_y c \<le> int (rows (lattice L)) - 2 \<longrightarrow> collideUpDown c)) \<and>
    (\<forall>x y. s \<le> x \<and> x < e \<and> 0 \<le> y \<and> y < int (rows (lattice L)) \<longrightarrow>
       (\<exists>c \<in> set (CollideAndStream_calls L s e). cell_x c = x \<and> cell_y c = y))"
proof -
  have cast: "static_cast_int (int (rows (lattice L))) = int (rows (lattice L))"
    using assms by (simp add: static_cast_int_id)
  have mem: "c \<in> set (CollideAndStream_calls L s e) \<longleftrightarrow>
     s \<le> cell_x c \<and> cell_x c < e \<and>
     xInsideBoundaryOrUseAccel c =
       (useAccelX L \<or> (cell_x c > 0 \<and> cell_x c < static_cast_int (int (cols (lattice L))) - 1)) \<and>
     (cell_y c = 0 \<and> collideUpDown c = (Periodic = boundaryConditions L) \<or>
      1 \<le> cell_y c \<and> cell_y c \<le> int (rows (lattice L)) - 2 \<and> collideUpDown c = True \<or>
      cell_y c = int (rows (lattice L)) - 1 \<and> collideUpDown c = (Periodic = boundaryConditions L))"
    for c
    by (auto simp: CollideAndStream_calls_def Let_def cast column_calls_set)
  have 1: "\<forall>c \<in> set (CollideAndStream_calls L s e).
      s \<le> cell_x c \<and> cell_x c < e \<and>
      (cell_y c = 0 \<or> cell_y c = int (rows (lattice L)) - 1 \<longrightarrow>
         collideUpDown c = (boundaryConditions L = Periodic)) \<and>
      (1 \<le> cell_y c \<and> cell_y c \<le> int (rows (lattice L)) - 2 \<longrightarrow> collideUpDown c)"
    by (auto simp: mem)
  have 2: "\<exists>c \<in> set (CollideAndStream_calls L s e). cell_x c = x \<and> cell_y c = y"
    if "s \<le> x" "x < e" "0 \<le> y" "y < int (rows (lattice L))" for x y
  proof -
    define c where "c = \<lparr>cell_x = x, cell_y = y,
       collideUpDown = (if y = 0 \<or> y = int (rows (lattice L)) - 1
                         then Periodic = boundaryConditions L else True),
       xInsideBoundaryOrUseAccel =
         (useAccelX L \<or> (x > 0 \<and> x < static_cast_int (int (cols (lattice L))) - 1))\<rparr>"
    have "c \<in> set (CollideAndStream_calls L s e)"
      using that by (auto simp: mem c_def)
    moreover have "cell_x c = x \<and> cell_y c = y" by (simp add: c_def)
    ultimately show ?thesis by blast
  qed
  show ?thesis using 1 2 by blast
qed

theorem edge_row_dispatch_witness:
  "int (rows (lattice (Init demo_ops demo_narrow))) < 2147483648 \<and>
   CollideAndStream_calls (Init demo_ops demo_narrow) 0 1 =
     [\<lparr>cell_x = 0, cell_y = 0, collideUpDown = False, xInsideBoundaryOrUseAccel = False\<rparr>,
      \<lparr>cell_x = 0, cell_y = 1, collideUpDown = True, xInsideBoundaryOrUseAccel = False\<rparr>,
      \<lparr>cell_x = 0, cell_y = 2, collideUpDown = False, xInsideBoundaryOrUseAccel = False\<rparr>] \<and>
   (\<exists>c \<in> set (CollideAndStream_calls (Init demo_ops demo_narrow) 0 1).
      cell_x c = 0 \<and> cell_y c = 1 \<and> collideUpDown c)"
proof -
  have d: "rows (lattice (Init demo_ops demo_narrow)) = 3"
    "cols (lattice (Init demo_ops demo_narrow)) = 2"
    "boundaryConditions (Init demo_ops demo_narrow) = BounceBack"
    "useAccelX (Init demo_ops demo_narrow) = False"
    by (simp_all add: Init_fields demo_narrow_def Constant_def)
  have h: "int (rows (lattice (Init demo_ops demo_narrow))) < 2147483648"
    by (simp add: d)
  have u: "[1 .. (1::int)] = [1]" by (simp add: upto_rec1)
  have u0: "[0 .. (0::int)] = [0]" by (simp add: upto_rec1)
  have calls: "CollideAndStream_calls (Init demo_ops demo_narrow) 0 1 =
     [\<lparr>cell_x = 0, cell_y = 0, collideUpDown = False, xInsideBoundaryOrUseAccel = False\<rparr>,
      \<lparr>cell_x = 0, cell_y = 1, collideUpDown = True, xInsideBoundaryOrUseAccel = False\<rparr>,
      \<lparr>cell_x = 0, cell_y = 2, collideUpDown = False, xInsideBoundaryOrUseAccel = False\<rparr>]"
    by (simp add: CollideAndStream_calls_def column_calls_def Let_def d static_cast_int_def u u0)
  note e = edge_row_dispatch [OF h, of 0 1]
  have "(0::int) \<le> 0 \<and> (0::int) < 1 \<and> (0::int) \<le> 1 \<and>
      (1::int) < int (rows (lattice (Init demo_ops demo_narrow)))"
    by (simp add: d)
  with e obtain c where c: "c \<in> set (CollideAndStream_calls (Init demo_ops demo_narrow) 0 1)"
    "cell_x c = 0" "cell_y c = 1"
    by blast
  have "1 \<le> cell_y c \<and> cell_y c \<le> int (rows (lattice (Init demo_ops demo_narrow))) - 2"
    using c(3) by (simp add: d)
  with e c(1) have "collideUpDown c" by blast
  with c have "\<exists>c \<in> set (CollideAndStream_calls (Init demo_ops demo_narrow) 0 1).
      cell_x c = 0 \<and> cell_y c = 1 \<and> collideUpDown c"
    by blast
  then show ?thesis using h calls by blast
qed

subsection \<open>C8: the cadence of the extraction\<close>

text \<open>
  Claim C8. In every reachable state the log of the controller holds, for each step
  \<open>k\<close> of the loop that passed the test of \<^verbatim>\<open>simulate\<close>, in order, the swap of
  the grids and after it a call of GetResults if and only if \<open>k > 2000\<close> and
  \<open>k mod refreshSteps = 0\<close>; no call of GetResults is logged at a step \<open>k \<le> 2000\<close>,
  whatever \<^verbatim>\<open>refreshSteps\<close> is. The loop body itself swaps first and then calls
  GetResults, on the swapped grids, under that condition. (The controller faults only
  with a zero \<^verbatim>\<open>refreshSteps\<close> past step 2000, where the source divides by zero.)
\<close>

theorem extraction_cadence:
  assumes start: "Simulate_start n c sim = Inr s0"
    and reach: "run n r as s0 = Some s"
  shows "(\<forall>k. (k, Call_GetResults) \<in> set (calls s) \<longrightarrow> 2000 < k \<and> k mod r = 0) \<and>
    (controller s \<noteq> C_Fault \<longrightarrow>
       (\<exists>m. step s = m mod 4294967296 \<and>
            calls s = concat (map (tail_calls r) (steps_done m))) \<and>
       (\<forall>k. (k, Call_swap) \<in> set (calls s) \<longrightarrow>
            ((k, Call_GetResults) \<in> set (calls s) \<longleftrightarrow> 2000 < k \<and> k mod r = 0))) \<and>
    (controller s = C_Fault \<longrightarrow> r = 0 \<and> 2000 < step s) \<and>
    (k \<le> 2000 \<longrightarrow> step_tail ops k S = Inr (swap_grids S, [Call_swap])) \<and>
    (refreshSteps (obj S) \<noteq> 0 \<longrightarrow>
       step_tail ops k S =
         (if k > 2000 \<and> k mod refreshSteps (obj S) = 0
          then Inr ((swap_grids S)\<lparr>obj := GetResults ops (obj (swap_grids S))\<rparr>,
                    [Call_swap, Call_GetResults])
          else Inr (swap_grids S, [Call_swap])))"
proof -
  have "cadence_inv r s" using cadence_run [OF cadence_start [OF start] reach] .
  then obtain m where m: "step s = m mod 4294967296"
    "calls s = concat (map (tail_calls r) (steps_done m)) @ fault_calls s"
    by (auto simp: cadence_inv_def)
  have 1: "\<forall>k. (k, Call_GetResults) \<in> set (calls s) \<longrightarrow> 2000 < k \<and> k mod r = 0"
  proof (intro allI impI)
    fix k assume "(k, Call_GetResults) \<in> set (calls s)"
    then have "(k, Call_GetResults) \<in> set (concat (map (tail_calls r) (steps_done m)))"
      unfolding m(2) by (auto simp: fault_calls_def split: if_splits)
    then show "2000 < k \<and> k mod r = 0"
      unfolding GetResults_in_tail_calls by simp
  qed
  have 2: "controller s \<noteq> C_Fault \<longrightarrow>
       (\<exists>m. step s = m mod 4294967296 \<and>
            calls s = concat (map (tail_calls r) (steps_done m))) \<and>
       (\<forall>k. (k, Call_swap) \<in> set (calls s) \<longrightarrow>
            ((k, Call_GetResults) \<in> set (calls s) \<longleftrightarrow> 2000 < k \<and> k mod r = 0))"
  proof
    assume nf: "controller s \<noteq> C_Fault"
    then have c: "calls s = concat (map (tail_calls r) (steps_done m))"
      using m(2) by (simp add: fault_calls_def)
    have "\<forall>k. (k, Call_swap) \<in> set (calls s) \<longrightarrow>
            ((k, Call_GetResults) \<in> set (calls s) \<longleftrightarrow> 2000 < k \<and> k mod r = 0)"
      unfolding c GetResults_in_tail_calls swap_in_tail_calls by simp
    then show "(\<exists>m. step s = m mod 4294967296 \<and>
            calls s = concat (map (tail_calls r) (steps_done m))) \<and>
       (\<forall>k. (k, Call_swap) \<in> set (calls s) \<longrightarrow>
            ((k, Call_GetResults) \<in> set (calls s) \<longleftrightarrow> 2000 < k \<and> k mod r = 0))"
      using m(1) c by blast
  qed
  have 5: "controller s = C_Fault \<longrightarrow> r = 0 \<and> 2000 < step s"
    using fault_run [OF _ reach] start
    by (auto simp: fault_inv_def Simulate_start_def split: sum.splits)
  have 3: "k \<le> 2000 \<longrightarrow> step_tail ops k S = Inr (swap_grids S, [Call_swap])"
    by (simp add: step_tail_def extraction_due_def swap_grids_def Let_def)
  have 4: "refreshSteps (obj S) \<noteq> 0 \<longrightarrow>
       step_tail ops k S =
         (if k > 2000 \<and> k mod refreshSteps (obj S) = 0
          then Inr ((swap_grids S)\<lparr>obj := GetResults ops (obj (swap_grids S))\<rparr>,
                    [Call_swap, Call_GetResults])
          else Inr (swap_grids S, [Call_swap]))"
    by (simp add: step_tail_def extraction_due_def swap_grids_def Let_def)
  show ?thesis using 1 2 3 4 5 by blast
qed

theorem extraction_cadence_witness:
  "Simulate_start 2 4 True = Inr demo_start \<and>
   run 2 10 ([Controller, Worker 0, Worker 0, Worker 0, Worker 0, Worker 1, Worker 1, Worker 1,
     Worker 1, Controller, Controller] @ [Controller]) demo_start = Some demo_cycled \<and>
   calls demo_cycled = [(0, Call_swap)] \<and> step demo_cycled = 1 \<and>
   refreshSteps (obj demo_sim) \<noteq> 0 \<and> (1000::nat) \<le> 2000 \<and>
   step_tail demo_ops 1000 demo_sim = Inr (swap_grids demo_sim, [Call_swap]) \<and>
   map_sum id snd (step_tail demo_ops 2005 demo_sim) = Inr [Call_swap] \<and>
   map_sum id snd (step_tail demo_ops 2010 demo_sim) = Inr [Call_swap, Call_GetResults]"
proof -
  have 1: "Simulate_start 2 4 True = Inr demo_start" by code_simp
  have p: "run 2 10 [Controller, Worker 0, Worker 0, Worker 0, Worker 0, Worker 1, Worker 1,
     Worker 1, Worker 1, Controller, Controller] demo_start = Some demo_swapping"
    by code_simp
  have q: "run 2 10 [Controller] demo_swapping = Some demo_cycled"
    by (simp add: act_def controller_step_def extraction_due_def demo_swapping_def
        demo_cycled_def)
  have 2: "run 2 10 ([Controller, Worker 0, Worker 0, Worker 0, Worker 0, Worker 1, Worker 1,
     Worker 1, Worker 1, Controller, Controller] @ [Controller]) demo_start = Some demo_cycled"
    unfolding run_append p using q by simp
  have h: "refreshSteps (obj demo_sim) \<noteq> 0" "refreshSteps (obj demo_sim) = 10"
    by (simp_all add: demo_sim_def demo_wall_def)
  have a: "(1000::nat) \<le> 2000" by simp
  note c = extraction_cadence [OF 1 2, of _ demo_ops demo_sim]
  have 3: "step_tail demo_ops 1000 demo_sim = Inr (swap_grids demo_sim, [Call_swap])"
    using c [of 1000] by simp
  have 4: "map_sum id snd (step_tail demo_ops 2005 demo_sim) = Inr [Call_swap]"
    using c [of 2005] h by simp
  have 5: "map_sum id snd (step_tail demo_ops 2010 demo_sim) = Inr [Call_swap, Call_GetResults]"
    using c [of 2010] h by simp
  have 6: "calls demo_cycled = [(0, Call_swap)]" "step demo_cycled = 1"
    by (simp_all add: demo_cycled_def)
  show ?thesis using 1 2 h(1) a 3 4 5 6 by simp
qed

subsection \<open>C10: Simulate runs Init\<close>

text \<open>
  Claim C10. Simulate calls Init first: what it builds does not depend on the lattice and
  the results left by an earlier run, a call of Init before it changes nothing, and when
  the threads are started the lattice object is the one Init produces and the work grid
  has the shape of the mask.
\<close>

theorem Simulate_runs_Init:
  "Simulate_setup ops (L\<lparr>lattice := lat, results := res\<rparr>) = Simulate_setup ops L \<and>
   Simulate_setup ops (Init ops L) = Simulate_setup ops L \<and>
   (case Simulate_setup ops L of
      Inl e \<Rightarrow> numThreads L = 0
    | Inr S \<Rightarrow> obj S = Init ops L \<and>
        latticeWork S = CellLattice ops (rows (latticeObstacles L)) (cols (latticeObstacles L)) \<and>
        Simulate_threads (numThreads L) (cols (latticeObstacles L)) = Inr (threads S))"
proof -
  have 1: "Init ops (L\<lparr>lattice := lat, results := res\<rparr>) = Init ops L"
    by (simp add: Init_def Let_def)
  have 2: "Init ops (Init ops L) = Init ops L"
    by (simp add: Init_def Let_def)
  have 3: "case Simulate_setup ops L of
      Inl e \<Rightarrow> numThreads L = 0
    | Inr S \<Rightarrow> obj S = Init ops L \<and>
        latticeWork S = CellLattice ops (rows (latticeObstacles L)) (cols (latticeObstacles L)) \<and>
        Simulate_threads (numThreads L) (cols (latticeObstacles L)) = Inr (threads S)"
    by (auto simp: Simulate_setup_def Let_def Init_fields Simulate_threads_def split: sum.splits)
  show ?thesis
    using 3 by (simp add: Simulate_setup_def 1 2)
qed

theorem Simulate_runs_Init_witness:
  "Simulate_setup demo_ops (demo_narrow\<lparr>lattice := lattice demo_wall, results := Constant 7 7 5\<rparr>)
     = Simulate_setup demo_ops demo_narrow \<and>
   \<not> isl (Simulate_setup demo_ops demo_narrow) \<and>
   obj (projr (Simulate_setup demo_ops demo_narrow)) = Init demo_ops demo_narrow \<and>
   results (obj (projr (Simulate_setup demo_ops demo_narrow))) = Constant 3 2 0"
proof -
  note p = Simulate_runs_Init [where ops = demo_ops and L = demo_narrow
      and lat = "lattice demo_wall" and res = "Constant 7 7 5"]
  have n: "numThreads demo_narrow \<noteq> 0" by (simp add: demo_narrow_def)
  obtain S where S: "Simulate_setup demo_ops demo_narrow = Inr S"
    using p n by (cases "Simulate_setup demo_ops demo_narrow") auto
  have o: "obj S = Init demo_ops demo_narrow" using p S by simp
  have r: "results (Init demo_ops demo_narrow) = Constant 3 2 0"
    by (simp add: Init_fields demo_narrow_def Constant_def)
  show ?thesis using p S o r by simp
qed

end
